theory Spec2Isabelle
  imports Complex_Main "HOL-Library.AList" "HOL-Library.Word"
    "HOL-Library.Char_ord" "HOL-Library.List_Lexorder"
begin

unbundle bit_operations_syntax

section \<open>CanaryFS: the in-memory store and its rule engine\<close>

text \<open>
  The development follows \<^verbatim>\<open>src/canaryfs.py\<close>. Python objects are shared: the same
  \<^verbatim>\<open>Node\<close> is referenced from \<^verbatim>\<open>self.files\<close> (keyed by path) and from its parent's
  \<^verbatim>\<open>children\<close> (keyed by name). The model therefore keeps the nodes in an explicit heap,
  a list indexed by address, and both dictionaries hold addresses. Dictionaries are
  association lists (insertion ordered, as Python's are). Python integers are \<open>int\<close>,
  timestamps (\<^verbatim>\<open>time.time()\<close>) are \<open>real\<close>, bytes are 8-bit words.

  Two things reach the program from outside: the clock and the console. The clock is a
  function from the number of calls made so far to the value returned; the console is the
  list of lines still to be read, and reading past its end is \<^verbatim>\<open>EOFError\<close>.
  An exception leaves behind whatever was mutated before it was raised, so every
  operation returns the state together with its outcome.
\<close>

subsection \<open>Data\<close>

type_synonym addr = nat
type_synonym byte = "8 word"

datatype error = ENOENT | ENOTDIR | EISDIR | EEXIST | ENOTEMPTY | ENOSPC | EACCES | KeyError

record rule =
  expires_at :: "real option"
  remaining :: "int option"

record node =
  is_dir :: bool
  mode :: int
  nlink :: int
  size_n :: int
  atime :: real
  mtime :: real
  ctime :: real
  uid :: int
  gid :: int
  children :: "(string \<times> addr) list"
  data :: "byte list"

datatype console_event = Prompt string string | Usage

record canaryfs =
  capacity :: int
  ask :: bool
  ask_scope :: string
  global_allow_all :: bool
  used :: int
  fd :: int
  files :: "(string \<times> addr) list"
  allow_rules :: "((string \<times> string) \<times> rule) list"
  heap :: "node list"
  logged :: "(string \<times> string) list"
  console :: "console_event list"
  inputs :: "string list"
  clock :: "nat \<Rightarrow> real"
  ticks :: nat
  getuid :: int
  getgid :: int

definition BLOCK_SIZE :: int where
  "BLOCK_SIZE = 4096"

definition DEFAULT_CAPACITY :: int where
  "DEFAULT_CAPACITY = 10 * 1024 * 1024"

definition S_IFDIR :: int where
  "S_IFDIR = 0x4000"

definition S_IFREG :: int where
  "S_IFREG = 0x8000"

subsection \<open>Python's string and slice primitives\<close>

text \<open>\<^verbatim>\<open>str.strip\<close>, \<^verbatim>\<open>str.lower\<close>, \<^verbatim>\<open>str.isdigit\<close> and \<^verbatim>\<open>int\<close> on ASCII text.\<close>

definition is_space :: "char \<Rightarrow> bool" where
  "is_space c = ((of_char c :: nat) \<in> {9, 10, 11, 12, 13, 28, 29, 30, 31, 32})"

definition strip :: "string \<Rightarrow> string" where
  "strip s = rev (dropWhile is_space (rev (dropWhile is_space s)))"

definition lower_char :: "char \<Rightarrow> char" where
  "lower_char c = (if 65 \<le> (of_char c :: nat) \<and> (of_char c :: nat) \<le> 90
                   then char_of ((of_char c :: nat) + 32) else c)"

definition lower :: "string \<Rightarrow> string" where
  "lower s = map lower_char s"

definition is_digit_char :: "char \<Rightarrow> bool" where
  "is_digit_char c = (48 \<le> (of_char c :: nat) \<and> (of_char c :: nat) \<le> 57)"

definition isdigit :: "string \<Rightarrow> bool" where
  "isdigit s = (s \<noteq> [] \<and> list_all is_digit_char s)"

definition int_of_digits :: "string \<Rightarrow> int" where
  "int_of_digits s = foldl (\<lambda>n c. 10 * n + (int (of_char c) - 48)) 0 s"

definition endswith :: "string \<Rightarrow> char \<Rightarrow> bool" where
  "endswith s c = (s \<noteq> [] \<and> last s = c)"

text \<open>
  Slices never raise: an index is clamped into the sequence, a negative one counting
  from the end. \<open>get_slice xs i j\<close> is \<^verbatim>\<open>xs[i:j]\<close> and \<open>set_slice xs i j ys\<close> is the
  sequence after \<^verbatim>\<open>xs[i:j] = ys\<close>.
\<close>

definition slice_idx :: "int \<Rightarrow> nat \<Rightarrow> nat" where
  "slice_idx i n = (if i < 0 then nat (max 0 (i + int n)) else min (nat i) n)"

definition get_slice :: "'a list \<Rightarrow> int \<Rightarrow> int \<Rightarrow> 'a list" where
  "get_slice xs i j =
     (let lo = slice_idx i (length xs); hi = slice_idx j (length xs)
      in take (hi - lo) (drop lo xs))"

definition set_slice :: "'a list \<Rightarrow> int \<Rightarrow> int \<Rightarrow> 'a list \<Rightarrow> 'a list" where
  "set_slice xs i j ys =
     (let lo = slice_idx i (length xs); hi = max lo (slice_idx j (length xs))
      in take lo xs @ ys @ drop hi xs)"

text \<open>\<^verbatim>\<open>posixpath.split\<close>: cut after the last slash, then drop the head's trailing
  slashes unless the head is nothing but slashes.\<close>

definition os_path_split :: "string \<Rightarrow> string \<times> string" where
  "os_path_split p =
     (let tl = rev (takeWhile (\<lambda>c. c \<noteq> CHR ''/'') (rev p));
          hd = rev (dropWhile (\<lambda>c. c \<noteq> CHR ''/'') (rev p))
      in if hd \<noteq> [] \<and> \<not> list_all (\<lambda>c. c = CHR ''/'') hd
         then (rev (dropWhile (\<lambda>c. c = CHR ''/'') (rev hd)), tl)
         else (hd, tl))"

subsection \<open>Clock, rules and the prompt\<close>

definition now_ts :: "canaryfs \<Rightarrow> real \<times> canaryfs" where
  "now_ts s = (clock s (ticks s), s\<lparr>ticks := Suc (ticks s)\<rparr>)"

definition allowed :: "rule \<Rightarrow> canaryfs \<Rightarrow> bool \<times> canaryfs" where
  "allowed r s =
     (case expires_at r of
        Some e \<Rightarrow> (let (t, s1) = now_ts s in (t \<le> e, s1))
      | None \<Rightarrow> (case remaining r of Some n \<Rightarrow> (0 < n, s) | None \<Rightarrow> (True, s)))"

definition consume :: "rule \<Rightarrow> rule" where
  "consume r =
     (case remaining r of
        Some n \<Rightarrow> (if 0 < n then r\<lparr>remaining := Some (n - 1)\<rparr> else r)
      | None \<Rightarrow> r)"

definition rule_key :: "canaryfs \<Rightarrow> string \<Rightarrow> string \<Rightarrow> string \<times> string" where
  "rule_key s opn path = (if ask_scope s = ''path'' then (''*'', path) else (opn, path))"

text \<open>
  The \<^verbatim>\<open>while True\<close> loop of \<^verbatim>\<open>_check_and_prompt\<close>, by recursion on the lines still to
  be read. Each round prints the question (a \<open>Prompt\<close> event) and reads a line; at the
  end of the input \<^verbatim>\<open>input()\<close> raises \<^verbatim>\<open>EOFError\<close> and the answer is \<^verbatim>\<open>'n'\<close>.
\<close>

fun prompt :: "string \<Rightarrow> string \<Rightarrow> string \<times> string \<Rightarrow> string list \<Rightarrow> canaryfs
                \<Rightarrow> (error + unit) \<times> canaryfs" where
  "prompt opn path key [] s =
     (Inl EACCES, s\<lparr>console := console s @ [Prompt opn path], inputs := []\<rparr>)"
| "prompt opn path key (l # ls) s =
     (let ans = strip l;
          s1 = s\<lparr>console := console s @ [Prompt opn path], inputs := ls\<rparr>
      in if ans = [] \<or> lower ans = ''y'' then (Inr (), s1)
         else if lower ans = ''a'' then (Inr (), s1\<lparr>global_allow_all := True\<rparr>)
         else if lower ans = ''n'' then (Inl EACCES, s1)
         else if endswith ans CHR ''s'' \<and> isdigit (butlast ans) then
           (let seconds = int_of_digits (butlast ans); (t, s2) = now_ts s1
            in (Inr (), s2\<lparr>allow_rules := AList.update key
                  \<lparr>expires_at = Some (t + real_of_int seconds), remaining = None\<rparr>
                  (allow_rules s2)\<rparr>))
         else if isdigit ans then
           (Inr (), s1\<lparr>allow_rules := AList.update key
                  \<lparr>expires_at = None, remaining = Some (int_of_digits ans)\<rparr>
                  (allow_rules s1)\<rparr>)
         else prompt opn path key ls (s1\<lparr>console := console s1 @ [Usage]\<rparr>))"

definition check_and_prompt :: "string \<Rightarrow> string \<Rightarrow> canaryfs \<Rightarrow> (error + unit) \<times> canaryfs" where
  "check_and_prompt opn path s =
     (let s0 = s\<lparr>logged := logged s @ [(opn, path)]\<rparr>
      in if \<not> ask s0 \<or> global_allow_all s0 then (Inr (), s0)
         else
           (let key = rule_key s0 opn path
            in case map_of (allow_rules s0) key of
                 Some r \<Rightarrow>
                   (let (ok, s1) = allowed r s0
                    in if ok
                       then (Inr (), s1\<lparr>allow_rules :=
                               AList.update key (consume r) (allow_rules s1)\<rparr>)
                       else prompt opn path key (inputs s1)
                              (s1\<lparr>allow_rules := AList.delete key (allow_rules s1)\<rparr>))
               | None \<Rightarrow> prompt opn path key (inputs s0) s0))"

subsection \<open>Store helpers\<close>

definition now_node :: "bool \<Rightarrow> int \<Rightarrow> canaryfs \<Rightarrow> node \<times> canaryfs" where
  \<comment> \<open>\<^verbatim>\<open>Node.__init__\<close>\<close>
  "now_node d m s =
     (let (ts, s1) = now_ts s
      in (\<lparr>is_dir = d, mode = m, nlink = (if d then 2 else 1), size_n = 0,
           atime = ts, mtime = ts, ctime = ts, uid = getuid s, gid = getgid s,
           children = [], data = []\<rparr>, s1))"

definition alloc :: "node \<Rightarrow> canaryfs \<Rightarrow> addr \<times> canaryfs" where
  \<comment> \<open>a new object gets an address no dictionary holds yet\<close>
  "alloc n s = (length (heap s), s\<lparr>heap := heap s @ [n]\<rparr>)"

definition upd_node :: "addr \<Rightarrow> (node \<Rightarrow> node) \<Rightarrow> canaryfs \<Rightarrow> canaryfs" where
  \<comment> \<open>a field assignment through a reference\<close>
  "upd_node a f s = s\<lparr>heap := (heap s)[a := f (heap s ! a)]\<rparr>"

definition init :: "int \<Rightarrow> bool \<Rightarrow> string \<Rightarrow> (nat \<Rightarrow> real) \<Rightarrow> string list \<Rightarrow> int \<Rightarrow> int
                     \<Rightarrow> canaryfs" where
  \<comment> \<open>\<^verbatim>\<open>CanaryFS.__init__\<close>; the clock, the console input and the process ids come with it\<close>
  "init cap a scope clk ins u g =
     (let s = \<lparr>capacity = cap, ask = a, ask_scope = scope, global_allow_all = False,
               used = 0, fd = 0, files = [], allow_rules = [], heap = [], logged = [],
               console = [], inputs = ins, clock = clk, ticks = 0, getuid = u, getgid = g\<rparr>;
          (root, s1) = now_node True (S_IFDIR OR 0x1ED) s;
          (a, s2) = alloc root s1
      in s2\<lparr>files := AList.update ''/'' a (files s2)\<rparr>)"

definition fs_split :: "string \<Rightarrow> string \<times> string" where
  "fs_split path =
     (let (parent, name) = os_path_split path
      in (if parent = [] then ''/'' else parent, name))"

definition fs_get :: "string \<Rightarrow> canaryfs \<Rightarrow> error + addr" where
  "fs_get path s = (case map_of (files s) path of None \<Rightarrow> Inl ENOENT | Some a \<Rightarrow> Inr a)"

definition ensure_parent :: "string \<Rightarrow> canaryfs \<Rightarrow> error + (addr \<times> string)" where
  "ensure_parent path s =
     (let (parent, name) = fs_split path
      in case fs_get parent s of
           Inl e \<Rightarrow> Inl e
         | Inr pa \<Rightarrow> if \<not> is_dir (heap s ! pa) then Inl ENOTDIR else Inr (pa, name))"

definition ensure_space_delta :: "int \<Rightarrow> canaryfs \<Rightarrow> error + unit" where
  "ensure_space_delta delta s =
     (if delta \<le> 0 then Inr ()
      else if used s + delta > capacity s then Inl ENOSPC
      else Inr ())"

definition has_key :: "('k \<times> 'v) list \<Rightarrow> 'k \<Rightarrow> bool" where
  \<comment> \<open>\<^verbatim>\<open>k in d\<close>\<close>
  "has_key al k = (map_of al k \<noteq> None)"

definition set_child :: "string \<Rightarrow> addr \<Rightarrow> node \<Rightarrow> node" where
  "set_child name a n = n\<lparr>children := AList.update name a (children n)\<rparr>"

definition del_child :: "string \<Rightarrow> node \<Rightarrow> node" where
  "del_child name n = n\<lparr>children := AList.delete name (children n)\<rparr>"

definition touch_mc :: "real \<Rightarrow> node \<Rightarrow> node" where
  \<comment> \<open>\<^verbatim>\<open>n.mtime = n.ctime = t\<close>\<close>
  "touch_mc t n = n\<lparr>mtime := t, ctime := t\<rparr>"

subsection \<open>Operations on the store\<close>

text \<open>
  Each \<open>f_store\<close> is the body of method \<open>f\<close> after its call of \<^verbatim>\<open>_check_and_prompt\<close>;
  the method itself follows in the next subsection. A \<^verbatim>\<open>del d[k]\<close> on a missing key
  raises \<^verbatim>\<open>KeyError\<close>.
\<close>

definition mkdir_store :: "string \<Rightarrow> int \<Rightarrow> canaryfs \<Rightarrow> (error + unit) \<times> canaryfs" where
  "mkdir_store path md s =
     (case ensure_parent path s of
        Inl e \<Rightarrow> (Inl e, s)
      | Inr (pa, name) \<Rightarrow>
          if has_key (children (heap s ! pa)) name then (Inl EEXIST, s)
          else
            (let (nd, s1) = now_node True (S_IFDIR OR (md AND 0x1FF)) s;
                 (a, s2) = alloc nd s1;
                 s3 = upd_node pa (set_child name a) s2;
                 s4 = s3\<lparr>files := AList.update path a (files s3)\<rparr>;
                 s5 = upd_node pa (\<lambda>n. n\<lparr>nlink := nlink n + 1\<rparr>) s4;
                 (t, s6) = now_ts s5
             in (Inr (), upd_node pa (touch_mc t) s6)))"

definition rmdir_store :: "string \<Rightarrow> canaryfs \<Rightarrow> (error + unit) \<times> canaryfs" where
  "rmdir_store path s =
     (case fs_get path s of
        Inl e \<Rightarrow> (Inl e, s)
      | Inr a \<Rightarrow>
          if \<not> is_dir (heap s ! a) then (Inl ENOTDIR, s)
          else if children (heap s ! a) \<noteq> [] then (Inl ENOTEMPTY, s)
          else
            (case ensure_parent path s of
               Inl e \<Rightarrow> (Inl e, s)
             | Inr (pa, name) \<Rightarrow>
                 if \<not> has_key (children (heap s ! pa)) name then (Inl KeyError, s)
                 else
                   (let s1 = upd_node pa (del_child name) s
                    in if \<not> has_key (files s1) path then (Inl KeyError, s1)
                       else
                         (let s2 = s1\<lparr>files := AList.delete path (files s1)\<rparr>;
                              s3 = upd_node pa (\<lambda>n. n\<lparr>nlink := nlink n - 1\<rparr>) s2;
                              (t, s4) = now_ts s3
                          in (Inr (), upd_node pa (touch_mc t) s4)))))"

definition unlink_store :: "string \<Rightarrow> canaryfs \<Rightarrow> (error + unit) \<times> canaryfs" where
  "unlink_store path s =
     (case fs_get path s of
        Inl e \<Rightarrow> (Inl e, s)
      | Inr a \<Rightarrow>
          if is_dir (heap s ! a) then (Inl EISDIR, s)
          else
            (case ensure_parent path s of
               Inl e \<Rightarrow> (Inl e, s)
             | Inr (pa, name) \<Rightarrow>
                 if \<not> has_key (children (heap s ! pa)) name then (Inl KeyError, s)
                 else
                   (let s1 = upd_node pa (del_child name) s
                    in if \<not> has_key (files s1) path then (Inl KeyError, s1)
                       else
                         (let s2 = s1\<lparr>files := AList.delete path (files s1)\<rparr>;
                              s3 = s2\<lparr>used := used s2 - size_n (heap s2 ! a)\<rparr>;
                              (t, s4) = now_ts s3
                          in (Inr (), upd_node pa (touch_mc t) s4)))))"

definition rename_target :: "addr \<Rightarrow> string \<Rightarrow> string \<Rightarrow> canaryfs \<Rightarrow> (error + unit) \<times> canaryfs" where
  \<comment> \<open>the \<^verbatim>\<open>if new_name in new_parent.children\<close> block of \<^verbatim>\<open>rename\<close>\<close>
  "rename_target np new_name new s =
     (case map_of (children (heap s ! np)) new_name of
        None \<Rightarrow> (Inr (), s)
      | Some target \<Rightarrow>
          if is_dir (heap s ! target) then (Inl EISDIR, s)
          else
            (let s1 = upd_node np (del_child new_name) s
             in if \<not> has_key (files s1) new then (Inl KeyError, s1)
                else
                  (let s2 = s1\<lparr>files := AList.delete new (files s1)\<rparr>
                   in (Inr (), s2\<lparr>used := used s2 - size_n (heap s2 ! target)\<rparr>))))"

definition rename_store :: "string \<Rightarrow> string \<Rightarrow> canaryfs \<Rightarrow> (error + unit) \<times> canaryfs" where
  "rename_store old new s =
     (case fs_get old s of
        Inl e \<Rightarrow> (Inl e, s)
      | Inr a \<Rightarrow>
     (case ensure_parent old s of
        Inl e \<Rightarrow> (Inl e, s)
      | Inr (opa, old_name) \<Rightarrow>
     (case ensure_parent new s of
        Inl e \<Rightarrow> (Inl e, s)
      | Inr (np, new_name) \<Rightarrow>
     (case rename_target np new_name new s of
        (Inl e, s2) \<Rightarrow> (Inl e, s2)
      | (Inr u, s2) \<Rightarrow>
          if \<not> has_key (children (heap s2 ! opa)) old_name then (Inl KeyError, s2)
          else
            (let s3 = upd_node opa (del_child old_name) s2;
                 s4 = upd_node np (set_child new_name a) s3
             in if \<not> has_key (files s4) old then (Inl KeyError, s4)
                else
                  (let s5 = s4\<lparr>files := AList.delete old (files s4)\<rparr>;
                       s6 = s5\<lparr>files := AList.update new a (files s5)\<rparr>;
                       (t, s7) = now_ts s6;
                       s8 = upd_node opa (touch_mc t) s7
                   in (Inr (), upd_node np (touch_mc t) s8)))))))"

definition open_store :: "string \<Rightarrow> canaryfs \<Rightarrow> (error + int) \<times> canaryfs" where
  "open_store path s =
     (case fs_get path s of
        Inl e \<Rightarrow> (Inl e, s)
      | Inr a \<Rightarrow> (Inr (fd s + 1), s\<lparr>fd := fd s + 1\<rparr>))"

definition create_store :: "string \<Rightarrow> int \<Rightarrow> canaryfs \<Rightarrow> (error + int) \<times> canaryfs" where
  "create_store path md s =
     (case ensure_parent path s of
        Inl e \<Rightarrow> (Inl e, s)
      | Inr (pa, name) \<Rightarrow>
          if has_key (children (heap s ! pa)) name then (Inl EEXIST, s)
          else
            (let (nd, s1) = now_node False (S_IFREG OR (md AND 0x1FF)) s;
                 (a, s2) = alloc nd s1;
                 s3 = upd_node pa (set_child name a) s2;
                 s4 = s3\<lparr>files := AList.update path a (files s3)\<rparr>;
                 (t, s5) = now_ts s4;
                 s6 = upd_node pa (touch_mc t) s5
             in (Inr (fd s6 + 1), s6\<lparr>fd := fd s6 + 1\<rparr>)))"

definition read_store :: "string \<Rightarrow> int \<Rightarrow> int \<Rightarrow> canaryfs \<Rightarrow> (error + byte list) \<times> canaryfs" where
  "read_store path sz offset s =
     (case fs_get path s of
        Inl e \<Rightarrow> (Inl e, s)
      | Inr a \<Rightarrow>
          if is_dir (heap s ! a) then (Inl EISDIR, s)
          else
            (let d = get_slice (data (heap s ! a)) offset (offset + sz);
                 (t, s1) = now_ts s
             in (Inr d, upd_node a (\<lambda>n. n\<lparr>atime := t\<rparr>) s1)))"

definition write_store :: "string \<Rightarrow> byte list \<Rightarrow> int \<Rightarrow> canaryfs \<Rightarrow> (error + int) \<times> canaryfs" where
  "write_store path dat offset s =
     (case fs_get path s of
        Inl e \<Rightarrow> (Inl e, s)
      | Inr a \<Rightarrow>
          if is_dir (heap s ! a) then (Inl EISDIR, s)
          else
            (let endpos = offset + int (length dat);
                 prev_size = size_n (heap s ! a);
                 new_size = max prev_size endpos;
                 delta = new_size - prev_size
             in case ensure_space_delta delta s of
                  Inl e \<Rightarrow> (Inl e, s)
                | Inr u \<Rightarrow>
                    (let s1 = (if new_size > int (length (data (heap s ! a)))
                               then upd_node a (\<lambda>n. n\<lparr>data := data n @
                                      replicate (nat (new_size - int (length (data n)))) 0\<rparr>) s
                               else s);
                         s2 = upd_node a (\<lambda>n. n\<lparr>data := set_slice (data n) offset endpos dat\<rparr>) s1;
                         s3 = upd_node a (\<lambda>n. n\<lparr>size_n := new_size\<rparr>) s2;
                         s4 = s3\<lparr>used := used s3 + delta\<rparr>;
                         (ts, s5) = now_ts s4
                     in (Inr (int (length dat)),
                         upd_node a (\<lambda>n. n\<lparr>mtime := ts, atime := ts\<rparr>) s5))))"

definition truncate_store :: "string \<Rightarrow> int \<Rightarrow> canaryfs \<Rightarrow> (error + unit) \<times> canaryfs" where
  "truncate_store path len s =
     (case fs_get path s of
        Inl e \<Rightarrow> (Inl e, s)
      | Inr a \<Rightarrow>
          if is_dir (heap s ! a) then (Inl EISDIR, s)
          else
            (let sz = size_n (heap s ! a);
                 r = (if len < sz then
                        (let delta = sz - len;
                             s1 = upd_node a (\<lambda>n. n\<lparr>data := take (slice_idx len (length (data n))) (data n)\<rparr>) s;
                             s2 = upd_node a (\<lambda>n. n\<lparr>size_n := len\<rparr>) s1
                         in Inr (s2\<lparr>used := used s2 - delta\<rparr>))
                      else if len > sz then
                        (let delta = len - sz
                         in case ensure_space_delta delta s of
                              Inl e \<Rightarrow> Inl e
                            | Inr u \<Rightarrow>
                                (let s1 = upd_node a (\<lambda>n. n\<lparr>data := data n @ replicate (nat delta) 0\<rparr>) s;
                                     s2 = upd_node a (\<lambda>n. n\<lparr>size_n := len\<rparr>) s1
                                 in Inr (s2\<lparr>used := used s2 + delta\<rparr>)))
                      else Inr s)
             in case r of
                  Inl e \<Rightarrow> (Inl e, s)
                | Inr s3 \<Rightarrow> (let (t, s4) = now_ts s3
                             in (Inr (), upd_node a (\<lambda>n. n\<lparr>mtime := t\<rparr>) s4))))"

definition utimens_store :: "string \<Rightarrow> (real \<times> real) option \<Rightarrow> canaryfs \<Rightarrow> (error + unit) \<times> canaryfs" where
  "utimens_store path tms s =
     (case fs_get path s of
        Inl e \<Rightarrow> (Inl e, s)
      | Inr a \<Rightarrow>
          (let ((atm, mtm), s2) =
                 (case tms of
                    Some tm \<Rightarrow> (tm, s)
                  | None \<Rightarrow> (let (t1, s1) = now_ts s; (t2, s2) = now_ts s1 in ((t1, t2), s2)));
               s3 = upd_node a (\<lambda>n. n\<lparr>atime := atm\<rparr>) s2
           in (Inr (), upd_node a (\<lambda>n. n\<lparr>mtime := mtm\<rparr>) s3)))"

definition chmod_store :: "string \<Rightarrow> int \<Rightarrow> canaryfs \<Rightarrow> (error + int) \<times> canaryfs" where
  "chmod_store path md s =
     (case fs_get path s of
        Inl e \<Rightarrow> (Inl e, s)
      | Inr a \<Rightarrow>
          (let s1 = upd_node a (\<lambda>n. n\<lparr>mode := (mode n AND NOT 0x1FF) OR (md AND 0x1FF)\<rparr>) s;
               (t, s2) = now_ts s1
           in (Inr 0, upd_node a (\<lambda>n. n\<lparr>ctime := t\<rparr>) s2)))"

definition chown_store :: "string \<Rightarrow> int \<Rightarrow> int \<Rightarrow> canaryfs \<Rightarrow> (error + int) \<times> canaryfs" where
  "chown_store path u g s =
     (case fs_get path s of
        Inl e \<Rightarrow> (Inl e, s)
      | Inr a \<Rightarrow>
          (let s1 = upd_node a (\<lambda>n. n\<lparr>uid := u\<rparr>) s;
               s2 = upd_node a (\<lambda>n. n\<lparr>gid := g\<rparr>) s1;
               (t, s3) = now_ts s2
           in (Inr 0, upd_node a (\<lambda>n. n\<lparr>ctime := t\<rparr>) s3)))"

definition access_store :: "string \<Rightarrow> canaryfs \<Rightarrow> (error + int) \<times> canaryfs" where
  "access_store path s =
     (case fs_get path s of Inl e \<Rightarrow> (Inl e, s) | Inr a \<Rightarrow> (Inr 0, s))"

definition getattr_store :: "string \<Rightarrow> canaryfs \<Rightarrow> (error + node) \<times> canaryfs" where
  \<comment> \<open>the \<^verbatim>\<open>st\<close> dictionary is read off the node returned\<close>
  "getattr_store path s =
     (case fs_get path s of Inl e \<Rightarrow> (Inl e, s) | Inr a \<Rightarrow> (Inr (heap s ! a), s))"

definition readdir_store :: "string \<Rightarrow> canaryfs \<Rightarrow> (error + string list) \<times> canaryfs" where
  "readdir_store path s =
     (case fs_get path s of
        Inl e \<Rightarrow> (Inl e, s)
      | Inr a \<Rightarrow>
          if \<not> is_dir (heap s ! a) then (Inl ENOTDIR, s)
          else (Inr ([''.'', ''..''] @ sort (map fst (children (heap s ! a)))), s))"

definition statfs :: "string \<Rightarrow> canaryfs \<Rightarrow> (int \<times> int \<times> int) \<times> canaryfs" where
  \<comment> \<open>block size, total blocks, free blocks; logged, never prompted\<close>
  "statfs path s =
     ((BLOCK_SIZE, capacity s div BLOCK_SIZE, (capacity s - used s) div BLOCK_SIZE),
      s\<lparr>logged := logged s @ [(''statfs'', path)]\<rparr>)"

subsection \<open>The methods: authorize, then act\<close>

definition guarded :: "string \<Rightarrow> string \<Rightarrow> (canaryfs \<Rightarrow> (error + 'a) \<times> canaryfs) \<Rightarrow> canaryfs
                        \<Rightarrow> (error + 'a) \<times> canaryfs" where
  \<comment> \<open>\<^verbatim>\<open>self._check_and_prompt(op, path)\<close> as a method's first statement\<close>
  "guarded opn path body s =
     (case check_and_prompt opn path s of
        (Inl e, s1) \<Rightarrow> (Inl e, s1)
      | (Inr u, s1) \<Rightarrow> body s1)"

definition access :: "string \<Rightarrow> canaryfs \<Rightarrow> (error + int) \<times> canaryfs" where
  "access path = guarded ''access'' path (access_store path)"

definition getattr :: "string \<Rightarrow> canaryfs \<Rightarrow> (error + node) \<times> canaryfs" where
  "getattr path = guarded ''getattr'' path (getattr_store path)"

definition readdir :: "string \<Rightarrow> canaryfs \<Rightarrow> (error + string list) \<times> canaryfs" where
  "readdir path = guarded ''readdir'' path (readdir_store path)"

definition mkdir :: "string \<Rightarrow> int \<Rightarrow> canaryfs \<Rightarrow> (error + unit) \<times> canaryfs" where
  "mkdir path md = guarded ''mkdir'' path (mkdir_store path md)"

definition rmdir :: "string \<Rightarrow> canaryfs \<Rightarrow> (error + unit) \<times> canaryfs" where
  "rmdir path = guarded ''rmdir'' path (rmdir_store path)"

definition unlink :: "string \<Rightarrow> canaryfs \<Rightarrow> (error + unit) \<times> canaryfs" where
  "unlink path = guarded ''unlink'' path (unlink_store path)"

definition rename :: "string \<Rightarrow> string \<Rightarrow> canaryfs \<Rightarrow> (error + unit) \<times> canaryfs" where
  "rename old new = guarded ''rename'' old (guarded ''rename'' new (rename_store old new))"

definition open_file :: "string \<Rightarrow> canaryfs \<Rightarrow> (error + int) \<times> canaryfs" where
  "open_file path = guarded ''open'' path (open_store path)"

definition create :: "string \<Rightarrow> int \<Rightarrow> canaryfs \<Rightarrow> (error + int) \<times> canaryfs" where
  "create path md = guarded ''create'' path (create_store path md)"

definition read :: "string \<Rightarrow> int \<Rightarrow> int \<Rightarrow> canaryfs \<Rightarrow> (error + byte list) \<times> canaryfs" where
  "read path sz offset = guarded ''read'' path (read_store path sz offset)"

definition write_file :: "string \<Rightarrow> byte list \<Rightarrow> int \<Rightarrow> canaryfs \<Rightarrow> (error + int) \<times> canaryfs" where
  "write_file path dat offset = guarded ''write'' path (write_store path dat offset)"

definition truncate :: "string \<Rightarrow> int \<Rightarrow> canaryfs \<Rightarrow> (error + unit) \<times> canaryfs" where
  "truncate path len = guarded ''truncate'' path (truncate_store path len)"

definition utimens :: "string \<Rightarrow> (real \<times> real) option \<Rightarrow> canaryfs \<Rightarrow> (error + unit) \<times> canaryfs" where
  "utimens path tms = guarded ''utimens'' path (utimens_store path tms)"

definition chmod :: "string \<Rightarrow> int \<Rightarrow> canaryfs \<Rightarrow> (error + int) \<times> canaryfs" where
  "chmod path md = guarded ''chmod'' path (chmod_store path md)"

definition chown :: "string \<Rightarrow> int \<Rightarrow> int \<Rightarrow> canaryfs \<Rightarrow> (error + int) \<times> canaryfs" where
  "chown path u g = guarded ''chown'' path (chown_store path u g)"

subsection \<open>Sequences of calls\<close>

datatype call =
    Access string | Getattr string | Readdir string | Mkdir string int | Rmdir string
  | Unlink string | Rename string string | Open string | Create string int
  | Read string int int | Write string "byte list" int | Truncate string int
  | Utimens string "(real \<times> real) option" | Chmod string int | Chown string int int
  | Statfs string

fun exec :: "call \<Rightarrow> canaryfs \<Rightarrow> canaryfs" where
  "exec (Access p) s = snd (access p s)"
| "exec (Getattr p) s = snd (getattr p s)"
| "exec (Readdir p) s = snd (readdir p s)"
| "exec (Mkdir p m) s = snd (mkdir p m s)"
| "exec (Rmdir p) s = snd (rmdir p s)"
| "exec (Unlink p) s = snd (unlink p s)"
| "exec (Rename p q) s = snd (rename p q s)"
| "exec (Open p) s = snd (open_file p s)"
| "exec (Create p m) s = snd (create p m s)"
| "exec (Read p n off) s = snd (read p n off s)"
| "exec (Write p d off) s = snd (write_file p d off s)"
| "exec (Truncate p n) s = snd (truncate p n s)"
| "exec (Utimens p t) s = snd (utimens p t s)"
| "exec (Chmod p m) s = snd (chmod p m s)"
| "exec (Chown p u g) s = snd (chown p u g s)"
| "exec (Statfs p) s = snd (statfs p s)"

definition run :: "call list \<Rightarrow> canaryfs \<Rightarrow> canaryfs" where
  \<comment> \<open>the calls one after another; a failed call leaves its state to the next\<close>
  "run cs s = foldl (\<lambda>st c. exec c st) s cs"

subsection \<open>Vocabulary of the properties\<close>

definition same_store :: "canaryfs \<Rightarrow> canaryfs \<Rightarrow> bool" where
  \<comment> \<open>the node store (paths, nodes, counters) of \<open>t\<close> is that of \<open>s\<close>\<close>
  "same_store s t = (files t = files s \<and> heap t = heap s \<and> used t = used s
                     \<and> capacity t = capacity s \<and> fd t = fd s)"

definition authorized :: "string \<Rightarrow> string \<Rightarrow> canaryfs \<Rightarrow> bool" where
  "authorized opn path s = (fst (check_and_prompt opn path s) = Inr ())"

definition after_check :: "string \<Rightarrow> string \<Rightarrow> canaryfs \<Rightarrow> canaryfs" where
  "after_check opn path s = snd (check_and_prompt opn path s)"

definition demo :: canaryfs where
  \<comment> \<open>a store of 20 bytes, prompts off\<close>
  "demo = init 20 False ''op'' (\<lambda>n. real n) [] 1000 1000"

definition digits :: "byte list" where
  \<comment> \<open>\<^verbatim>\<open>b"0123456789"\<close>\<close>
  "digits = [48, 49, 50, 51, 52, 53, 54, 55, 56, 57]"

definition count_rule :: "int \<Rightarrow> rule" where
  \<comment> \<open>\<^verbatim>\<open>Rule(remaining=n)\<close>\<close>
  "count_rule n = \<lparr>expires_at = None, remaining = Some n\<rparr>"

fun checks :: "(string \<times> string) list \<Rightarrow> canaryfs \<Rightarrow> (error + unit) list \<times> canaryfs" where
  \<comment> \<open>authorization checks one after another, with their outcomes\<close>
  "checks [] s = ([], s)"
| "checks ((opn, path) # cs) s =
     (let (r, s1) = check_and_prompt opn path s; (rs, s2) = checks cs s1 in (r # rs, s2))"

definition asking :: canaryfs where
  \<comment> \<open>prompts on, per operation and path; the console will answer \<^verbatim>\<open>3\<close>, then \<^verbatim>\<open>n\<close>\<close>
  "asking = init 20 True ''op'' (\<lambda>n. real n) [''3'', ''n''] 1000 1000"

definition child_dirs :: "canaryfs \<Rightarrow> addr \<Rightarrow> nat" where
  \<comment> \<open>how many children of the node at \<open>a\<close> are directories\<close>
  "child_dirs s a = length (filter (\<lambda>(n, c). is_dir (heap s ! c)) (children (heap s ! a)))"

definition links_ok :: "canaryfs \<Rightarrow> bool" where
  \<comment> \<open>every directory of the store has link count 2 + its child directories\<close>
  "links_ok s = list_all (\<lambda>a. nlink (heap s ! a) = 2 + int (child_dirs s a))
                   (filter (\<lambda>a. is_dir (heap s ! a)) (map snd (files s)))"

definition file_addrs :: "canaryfs \<Rightarrow> addr list" where
  \<comment> \<open>the file nodes of the store, each once\<close>
  "file_addrs s = remdups (filter (\<lambda>a. \<not> is_dir (heap s ! a)) (map snd (files s)))"

definition total_file_size :: "canaryfs \<Rightarrow> int" where
  "total_file_size s = sum_list (map (\<lambda>a. size_n (heap s ! a)) (file_addrs s))"

definition absolute :: "string \<Rightarrow> bool" where
  "absolute p = (case p of [] \<Rightarrow> False | c # cs \<Rightarrow> c = CHR ''/'')"

fun store_call :: "call \<Rightarrow> bool" where
  \<comment> \<open>create, write, truncate, unlink, rmdir or rename, as the binding delivers them:
     on absolute paths, and truncating to a length that is not negative\<close>
  "store_call (Create p m) = absolute p"
| "store_call (Write p d off) = absolute p"
| "store_call (Truncate p n) = (absolute p \<and> 0 \<le> n)"
| "store_call (Unlink p) = absolute p"
| "store_call (Rmdir p) = absolute p"
| "store_call (Rename p q) = (absolute p \<and> absolute q)"
| "store_call c = False"

definition wsum :: "(string \<rightharpoonup> addr) \<Rightarrow> (addr \<Rightarrow> bool) \<Rightarrow> (addr \<Rightarrow> int) \<Rightarrow> int" where
  \<comment> \<open>the sizes of the file nodes a path table refers to\<close>
  "wsum F D S = (\<Sum>a \<in> {a \<in> ran F. \<not> D a}. S a)"

definition shape :: "(string \<times> addr) list \<Rightarrow> node list \<Rightarrow> bool" where
  \<comment> \<open>a path table and heap that have only ever held files under the root: paths and
     nodes correspond one to one, only \<^verbatim>\<open>/\<close> is a directory, and its entries are the
     other paths\<close>
  "shape fs h =
     (let F = map_of fs
      in distinct (map fst fs)
       \<and> (\<forall>p a. F p = Some a \<longrightarrow> a < length h)
       \<and> (\<forall>p q a. F p = Some a \<longrightarrow> F q = Some a \<longrightarrow> p = q)
       \<and> (\<forall>p a. F p = Some a \<longrightarrow> is_dir (h ! a) \<longrightarrow> p = ''/'')
       \<and> (\<forall>r n c. F ''/'' = Some r \<longrightarrow> is_dir (h ! r) \<longrightarrow>
             map_of (children (h ! r)) n = Some c \<longrightarrow> n \<noteq> [] \<and> F (''/'' @ n) = Some c)
       \<and> (\<forall>r p a. F ''/'' = Some r \<longrightarrow> is_dir (h ! r) \<longrightarrow> F p = Some a \<longrightarrow> p \<noteq> ''/'' \<longrightarrow>
             take 1 p = ''/'' \<and> map_of (children (h ! r)) (drop 1 p) = Some a))"

definition sinv :: "(string \<times> addr) list \<Rightarrow> node list \<Rightarrow> int \<Rightarrow> int \<Rightarrow> bool" where
  \<comment> \<open>such a store, with no negative size, \<open>used\<close> the sum of the file sizes and
     within \<open>capacity\<close>\<close>
  "sinv fs h u c =
     (shape fs h
      \<and> (\<forall>a \<in> ran (map_of fs). 0 \<le> size_n (h ! a))
      \<and> u = wsum (map_of fs) (\<lambda>a. is_dir (h ! a)) (\<lambda>a. size_n (h ! a))
      \<and> u \<le> c)"

definition store_inv :: "canaryfs \<Rightarrow> bool" where
  "store_inv s = sinv (files s) (heap s) (used s) (capacity s)"

definition session :: "call list" where
  \<comment> \<open>a run of the six store operations, failures included\<close>
  "session = [Create ''/f'' 420, Write ''/f'' digits 0, Write ''/f'' digits 10,
              Write ''/f'' [120] 20, Truncate ''/f'' 4, Create ''/g'' 420,
              Write ''/g'' digits 3, Rename ''/g'' ''/f'', Rmdir ''/'', Unlink ''/f'']"

definition prompts :: "string \<Rightarrow> string \<Rightarrow> canaryfs \<Rightarrow> bool" where
  \<comment> \<open>the check of \<open>(opn, path)\<close> gets as far as the prompt: prompts on, allow-all unset,
     and under the key no rule, or one that is used up or expired\<close>
  "prompts opn path s =
     (ask s \<and> \<not> global_allow_all s \<and>
      (case map_of (allow_rules s) (rule_key s opn path) of
         None \<Rightarrow> True
       | Some r \<Rightarrow> \<not> fst (allowed r s)))"

section \<open>Properties\<close>

subsection \<open>Authorization leaves the node store alone\<close>

lemma prompt_same_store: "same_store s (snd (prompt opn path key ls s))"
proof (induction ls arbitrary: s)
  case Nil
  show ?case by (simp add: same_store_def)
next
  case (Cons l ls)
  show ?case
    by (simp add: Let_def now_ts_def Cons.IH [unfolded same_store_def] same_store_def)
qed

lemma allowed_same_store: "same_store s (snd (allowed r s))"
  by (simp add: allowed_def now_ts_def same_store_def split: option.splits)

lemma check_same_store: "same_store s (snd (check_and_prompt opn path s))"
  unfolding check_and_prompt_def Let_def split_def
  by (simp add: prompt_same_store [unfolded same_store_def]
        allowed_same_store [unfolded same_store_def] same_store_def split: option.splits)

lemma after_check_store:
  "files (after_check opn path s) = files s" "heap (after_check opn path s) = heap s"
  "used (after_check opn path s) = used s" "capacity (after_check opn path s) = capacity s"
  "fd (after_check opn path s) = fd s"
  using check_same_store [of s opn path] by (simp_all add: same_store_def after_check_def)

lemma guarded_authorized:
  "authorized opn path s \<Longrightarrow> guarded opn path body s = body (after_check opn path s)"
  by (auto simp: guarded_def authorized_def after_check_def split: prod.splits sum.splits)

lemma guarded_denied:
  "\<not> authorized opn path s \<Longrightarrow> snd (guarded opn path body s) = after_check opn path s"
  by (auto simp: guarded_def authorized_def after_check_def split: prod.splits sum.splits)

lemma heap_upd_node [simp]: "heap (upd_node a f s) = (heap s)[a := f (heap s ! a)]"
  by (simp add: upd_node_def)

lemma upd_node_fields [simp]:
  "files (upd_node a f s) = files s" "used (upd_node a f s) = used s"
  "capacity (upd_node a f s) = capacity s" "fd (upd_node a f s) = fd s"
  "ticks (upd_node a f s) = ticks s" "clock (upd_node a f s) = clock s"
  "global_allow_all (upd_node a f s) = global_allow_all s"
  "allow_rules (upd_node a f s) = allow_rules s" "logged (upd_node a f s) = logged s"
  "console (upd_node a f s) = console s" "inputs (upd_node a f s) = inputs s"
  "ask (upd_node a f s) = ask s" "ask_scope (upd_node a f s) = ask_scope s"
  "getuid (upd_node a f s) = getuid s" "getgid (upd_node a f s) = getgid s"
  by (simp_all add: upd_node_def)

lemmas eval_defs = demo_def digits_def run_def init_def guarded_def check_and_prompt_def
  now_node_def now_ts_def alloc_def upd_node_def ensure_parent_def fs_split_def
  os_path_split_def fs_get_def has_key_def set_child_def del_child_def touch_mc_def
  ensure_space_delta_def set_slice_def get_slice_def slice_idx_def Let_def S_IFDIR_def
  S_IFREG_def authorized_def after_check_def same_store_def

subsection \<open>Writing\<close>

text \<open>
  C2. A write to an existing file leaves it with size \<open>max old (offset + len)\<close>. Only the
  growth \<open>new - old\<close> is checked against the capacity: a positive growth that would take
  \<open>used\<close> above \<open>capacity\<close> fails with \<open>ENOSPC\<close>, and every other authorized write
  succeeds, returns the number of bytes and adds exactly the growth to \<open>used\<close> (so a write
  that does not grow the file cannot fail for space).
\<close>

theorem write_size_used:
  assumes "map_of (files s) path = Some a" and "\<not> is_dir (heap s ! a)"
    and "a < length (heap s)" and "authorized ''write'' path s"
  shows "let old = size_n (heap s ! a);
             new = max old (offset + int (length dat));
             r = write_file path dat offset s
         in (if 0 < new - old \<and> capacity s < used s + (new - old)
             then fst r = Inl ENOSPC
             else fst r = Inr (int (length dat))
                  \<and> size_n (heap (snd r) ! a) = new
                  \<and> used (snd r) = used s + (new - old))"
  using assms
  by (simp add: write_file_def guarded_authorized write_store_def fs_get_def after_check_store
        ensure_space_delta_def Let_def now_ts_def split_def)

text \<open>The example of the specification: 20 bytes of capacity, two writes of ten bytes,
  then one byte more.\<close>

theorem write_size_used_witness:
  "let s = run [Create ''/f'' 420, Write ''/f'' digits 0, Write ''/f'' digits 10] demo
   in map_of (files s) ''/f'' = Some 1 \<and> \<not> is_dir (heap s ! 1) \<and> 1 < length (heap s)
      \<and> authorized ''write'' ''/f'' s \<and> used s = 20 \<and> capacity s = 20
      \<and> used (run [Create ''/f'' 420, Write ''/f'' digits 0] demo) = 10
      \<and> fst (write_file ''/f'' [120] 20 s) = Inl ENOSPC
      \<and> used (snd (write_file ''/f'' [120] 20 s)) = 20"
  using write_size_used [of "run [Create ''/f'' 420, Write ''/f'' digits 0,
      Write ''/f'' digits 10] demo" "''/f''" 1 20 "[120]"]
  by (simp add: eval_defs create_def write_file_def create_store_def write_store_def)

text \<open>
  C3. A write that grows the file by more than the free space fails with \<open>ENOSPC\<close>, and
  the state it leaves is the one the authorization left: the node store is untouched, in
  particular the file's bytes, its size and \<open>used\<close>.
\<close>

theorem write_ENOSPC_atomic:
  assumes "map_of (files s) path = Some a" and "\<not> is_dir (heap s ! a)"
    and "authorized ''write'' path s"
    and "size_n (heap s ! a) < offset + int (length dat)"
    and "capacity s < used s + (offset + int (length dat) - size_n (heap s ! a))"
  shows "write_file path dat offset s = (Inl ENOSPC, after_check ''write'' path s)
       \<and> same_store s (snd (write_file path dat offset s))
       \<and> data (heap (snd (write_file path dat offset s)) ! a) = data (heap s ! a)
       \<and> size_n (heap (snd (write_file path dat offset s)) ! a) = size_n (heap s ! a)
       \<and> used (snd (write_file path dat offset s)) = used s"
  using assms
  by (simp add: write_file_def guarded_authorized write_store_def fs_get_def after_check_store
        same_store_def ensure_space_delta_def Let_def max_def)

theorem write_ENOSPC_atomic_witness:
  "let s = run [Create ''/f'' 420, Write ''/f'' digits 0] demo
   in map_of (files s) ''/f'' = Some 1 \<and> \<not> is_dir (heap s ! 1)
      \<and> authorized ''write'' ''/f'' s \<and> size_n (heap s ! 1) < 5 + int (length (digits @ digits))
      \<and> capacity s < used s + (5 + int (length (digits @ digits)) - size_n (heap s ! 1))
      \<and> fst (write_file ''/f'' (digits @ digits) 5 s) = Inl ENOSPC
      \<and> data (heap (snd (write_file ''/f'' (digits @ digits) 5 s)) ! 1) = digits
      \<and> used (snd (write_file ''/f'' (digits @ digits) 5 s)) = 10"
  using write_ENOSPC_atomic [of "run [Create ''/f'' 420, Write ''/f'' digits 0] demo"
      "''/f''" 1 5 "digits @ digits"]
  by (simp add: eval_defs create_def write_file_def create_store_def write_store_def)

subsection \<open>Data operations on a directory\<close>

text \<open>
  C10. When the path resolves to a directory, an authorized \<open>read\<close>, \<open>write\<close> or
  \<open>truncate\<close> fails with \<open>EISDIR\<close> and returns the state the authorization left, whose
  node store is the one before the call.
\<close>

theorem dir_target_EISDIR:
  assumes "map_of (files s) path = Some a" and "is_dir (heap s ! a)"
  shows "(authorized ''read'' path s \<longrightarrow>
            read path sz off s = (Inl EISDIR, after_check ''read'' path s)
            \<and> same_store s (snd (read path sz off s)))
       \<and> (authorized ''write'' path s \<longrightarrow>
            write_file path dat off s = (Inl EISDIR, after_check ''write'' path s)
            \<and> same_store s (snd (write_file path dat off s)))
       \<and> (authorized ''truncate'' path s \<longrightarrow>
            truncate path len s = (Inl EISDIR, after_check ''truncate'' path s)
            \<and> same_store s (snd (truncate path len s)))"
  using assms
  by (simp add: read_def write_file_def truncate_def guarded_authorized read_store_def
        write_store_def truncate_store_def fs_get_def after_check_store same_store_def)

theorem dir_target_EISDIR_witness:
  "map_of (files demo) ''/'' = Some 0 \<and> is_dir (heap demo ! 0)
   \<and> authorized ''read'' ''/'' demo \<and> authorized ''write'' ''/'' demo
   \<and> authorized ''truncate'' ''/'' demo
   \<and> fst (read ''/'' 4 0 demo) = Inl EISDIR \<and> same_store demo (snd (read ''/'' 4 0 demo))
   \<and> fst (write_file ''/'' digits 0 demo) = Inl EISDIR
   \<and> same_store demo (snd (write_file ''/'' digits 0 demo))
   \<and> fst (truncate ''/'' 3 demo) = Inl EISDIR
   \<and> same_store demo (snd (truncate ''/'' 3 demo))"
  using dir_target_EISDIR [of demo "''/''" 0 4 0 digits 3]
  by (simp add: eval_defs)

subsection \<open>Reading back\<close>

lemma slice_idx_nonneg: "0 \<le> i \<Longrightarrow> slice_idx i n = min (nat i) n"
  by (simp add: slice_idx_def)

lemma get_slice_nonneg:
  "0 \<le> i \<Longrightarrow> 0 \<le> k \<Longrightarrow> get_slice xs i (i + k) = take (nat k) (drop (nat i) xs)"
  by (auto simp: get_slice_def slice_idx_nonneg Let_def min_def nat_add_distrib)

lemma set_slice_inside:
  "0 \<le> i \<Longrightarrow> i + int (length ys) \<le> int (length xs) \<Longrightarrow>
   set_slice xs i (i + int (length ys)) ys
     = take (nat i) xs @ ys @ drop (nat i + length ys) xs"
  by (auto simp: set_slice_def slice_idx_nonneg Let_def min_def max_def nat_add_distrib)

lemma slice_roundtrip:
  assumes "0 \<le> i" and "i + int (length ys) \<le> int (length xs)"
  shows "get_slice (set_slice xs i (i + int (length ys)) ys) i (i + int (length ys)) = ys"
proof -
  have "nat i \<le> length xs" using assms by linarith
  then show ?thesis
    using assms by (simp add: set_slice_inside get_slice_nonneg min_def)
qed

lemma write_store_data:
  assumes "map_of (files s) path = Some a" and "\<not> is_dir (heap s ! a)"
    and "a < length (heap s)" and "fst (write_store path dat offset s) = Inr n"
  shows "\<exists>xs. data (heap (snd (write_store path dat offset s)) ! a)
                = set_slice xs offset (offset + int (length dat)) dat
            \<and> offset + int (length dat) \<le> int (length xs)
            \<and> files (snd (write_store path dat offset s)) = files s
            \<and> \<not> is_dir (heap (snd (write_store path dat offset s)) ! a)
            \<and> length (heap (snd (write_store path dat offset s))) = length (heap s)"
proof -
  let ?n = "heap s ! a"
  let ?new = "max (size_n ?n) (offset + int (length dat))"
  let ?xs = "if ?new > int (length (data ?n))
             then data ?n @ replicate (nat (?new - int (length (data ?n)))) 0 else data ?n"
  have ok: "ensure_space_delta (?new - size_n ?n) s = Inr ()"
    using assms by (auto simp: write_store_def fs_get_def Let_def split: sum.splits)
  have len: "offset + int (length dat) \<le> int (length ?xs)" by auto
  have "data (heap (snd (write_store path dat offset s)) ! a)
          = set_slice ?xs offset (offset + int (length dat)) dat"
    using assms(1-3) ok
    by (simp add: write_store_def fs_get_def Let_def now_ts_def split_def)
  moreover have "files (snd (write_store path dat offset s)) = files s"
      "\<not> is_dir (heap (snd (write_store path dat offset s)) ! a)"
      "length (heap (snd (write_store path dat offset s))) = length (heap s)"
    using assms(1-3) ok
    by (simp_all add: write_store_def fs_get_def Let_def now_ts_def split_def)
  ultimately show ?thesis using len by blast
qed

text \<open>
  C8. On a file, with a non-negative offset (the only offsets the binding passes on), a
  write that succeeds followed by an authorized read of the same length at the same offset
  returns the bytes written. A read of \<open>sz\<close> bytes at \<open>off\<close> returns the part of the
  buffer inside \<open>[off, off + sz)\<close>: never more than \<open>sz\<close> bytes, nothing from beyond the
  end, each byte the one stored at its position.
\<close>

theorem write_read_roundtrip:
  assumes "map_of (files s) path = Some a" and "\<not> is_dir (heap s ! a)"
    and "a < length (heap s)"
  shows "(0 \<le> offset \<and> fst (write_file path b offset s) = Inr n
            \<and> authorized ''read'' path (snd (write_file path b offset s))
          \<longrightarrow> fst (read path (int (length b)) offset (snd (write_file path b offset s))) = Inr b)
       \<and> (0 \<le> off \<and> 0 \<le> sz \<and> authorized ''read'' path s
          \<longrightarrow> (\<exists>r. fst (read path sz off s) = Inr r
                 \<and> r = take (nat sz) (drop (nat off) (data (heap s ! a)))
                 \<and> length r = min (nat sz) (length (data (heap s ! a)) - nat off)
                 \<and> (\<forall>i < length r. r ! i = data (heap s ! a) ! (nat off + i))))"
proof (intro conjI impI)
  assume h: "0 \<le> offset \<and> fst (write_file path b offset s) = Inr n
            \<and> authorized ''read'' path (snd (write_file path b offset s))"
  have auth: "authorized ''write'' path s"
    using h by (auto simp: write_file_def guarded_def authorized_def split: prod.splits sum.splits)
  let ?s1 = "after_check ''write'' path s"
  have w: "write_file path b offset s = write_store path b offset ?s1"
    using auth by (simp add: write_file_def guarded_authorized)
  obtain xs where xs: "data (heap (snd (write_store path b offset ?s1)) ! a)
                = set_slice xs offset (offset + int (length b)) b"
     "offset + int (length b) \<le> int (length xs)"
     "files (snd (write_store path b offset ?s1)) = files s"
     "\<not> is_dir (heap (snd (write_store path b offset ?s1)) ! a)"
    using write_store_data [of ?s1 path a b offset n] assms h w
    by (auto simp: after_check_store)
  let ?s2 = "snd (write_file path b offset s)"
  have "read path (int (length b)) offset ?s2
          = read_store path (int (length b)) offset (after_check ''read'' path ?s2)"
    using h by (simp add: read_def guarded_authorized)
  then show "fst (read path (int (length b)) offset ?s2) = Inr b"
    using xs h assms(1) w
    by (simp add: read_store_def fs_get_def after_check_store Let_def split_def slice_roundtrip)
next
  assume h: "0 \<le> off \<and> 0 \<le> sz \<and> authorized ''read'' path s"
  have "fst (read path sz off s) = Inr (take (nat sz) (drop (nat off) (data (heap s ! a))))"
    using h assms
    by (simp add: read_def guarded_authorized read_store_def fs_get_def after_check_store
          Let_def split_def get_slice_nonneg)
  then show "\<exists>r. fst (read path sz off s) = Inr r
                 \<and> r = take (nat sz) (drop (nat off) (data (heap s ! a)))
                 \<and> length r = min (nat sz) (length (data (heap s ! a)) - nat off)
                 \<and> (\<forall>i < length r. r ! i = data (heap s ! a) ! (nat off + i))"
    by (auto simp: min.commute)
qed

theorem write_read_roundtrip_witness:
  "let s = snd (create ''/f'' 420 demo)
   in map_of (files s) ''/f'' = Some 1 \<and> \<not> is_dir (heap s ! 1) \<and> 1 < length (heap s)
      \<and> fst (write_file ''/f'' digits 3 s) = Inr 10
      \<and> authorized ''read'' ''/f'' (snd (write_file ''/f'' digits 3 s))
      \<and> fst (read ''/f'' 10 3 (snd (write_file ''/f'' digits 3 s))) = Inr digits
      \<and> authorized ''read'' ''/f'' s \<and> fst (read ''/f'' 4 7 s) = Inr []"
  using write_read_roundtrip [of "snd (create ''/f'' 420 demo)" "''/f''" 1 3 digits 10 7 4]
  by (simp add: eval_defs create_def write_file_def read_def create_store_def write_store_def
        read_store_def)

subsection \<open>Count grants\<close>

lemma lower_digits: "list_all is_digit_char x \<Longrightarrow> lower x = x"
  by (induction x) (auto simp: lower_def lower_char_def is_digit_char_def)

lemma isdigit_not_letter:
  assumes "isdigit x"
  shows "x \<noteq> []" "lower x \<noteq> ''y''" "lower x \<noteq> ''a''" "lower x \<noteq> ''n''"
    "\<not> endswith x CHR ''s''"
proof -
  have d: "list_all is_digit_char x" and ne: "x \<noteq> []" using assms by (auto simp: isdigit_def)
  show "x \<noteq> []" by (rule ne)
  have l: "lower x = x" using d by (rule lower_digits)
  show "lower x \<noteq> ''y''" "lower x \<noteq> ''a''" "lower x \<noteq> ''n''"
    using d unfolding l by (auto simp: is_digit_char_def)
  have "is_digit_char (last x)" using d ne by (simp add: list_all_iff)
  then show "\<not> endswith x CHR ''s''"
    by (auto simp: endswith_def is_digit_char_def)
qed

lemma prompt_count_answer:
  assumes "isdigit (strip l)"
  shows "prompt opn path key (l # ls) s =
           (Inr (), s\<lparr>console := console s @ [Prompt opn path], inputs := ls,
                      allow_rules := AList.update key (count_rule (int_of_digits (strip l)))
                                       (allow_rules s)\<rparr>)"
  using isdigit_not_letter [OF assms] assms
  by (simp add: Let_def count_rule_def)

lemma prompt_console:
  "\<exists>es. console (snd (prompt opn path key ls s)) = console s @ Prompt opn path # es"
proof (induction ls arbitrary: s)
  case Nil
  show ?case by simp
next
  case (Cons l ls)
  obtain es where "console (snd (prompt opn path key ls
        (s\<lparr>console := console s @ [Prompt opn path], inputs := ls,
            console := console s @ [Prompt opn path] @ [Usage]\<rparr>)))
      = (console s @ [Prompt opn path] @ [Usage]) @ Prompt opn path # es"
    using Cons.IH [of "s\<lparr>console := console s @ [Prompt opn path], inputs := ls,
            console := console s @ [Prompt opn path] @ [Usage]\<rparr>"] by auto
  then show ?case
    by (auto simp: Let_def now_ts_def)
qed

lemma check_count_rule:
  assumes "ask s" and "\<not> global_allow_all s"
    and "map_of (allow_rules s) (rule_key s opn path) = Some (count_rule m)" and "0 < m"
  shows "check_and_prompt opn path s =
           (Inr (), s\<lparr>logged := logged s @ [(opn, path)],
                      allow_rules := AList.update (rule_key s opn path) (count_rule (m - 1))
                                       (allow_rules s)\<rparr>)"
  using assms
  by (simp add: check_and_prompt_def Let_def rule_key_def allowed_def consume_def count_rule_def)

lemma checks_count_rule:
  assumes "ask s" and "\<not> global_allow_all s"
    and "map_of (allow_rules s) key = Some (count_rule (int (length cs)))"
    and "\<forall>c \<in> set cs. rule_key s (fst c) (snd c) = key"
  shows "fst (checks cs s) = replicate (length cs) (Inr ())
       \<and> console (snd (checks cs s)) = console s
       \<and> inputs (snd (checks cs s)) = inputs s
       \<and> ask (snd (checks cs s)) \<and> \<not> global_allow_all (snd (checks cs s))
       \<and> ask_scope (snd (checks cs s)) = ask_scope s
       \<and> map_of (allow_rules (snd (checks cs s))) key = Some (count_rule 0)"
  using assms
proof (induction cs arbitrary: s)
  case Nil
  then show ?case by simp
next
  case (Cons c cs)
  obtain opn path where c: "c = (opn, path)" by (cases c)
  have k: "rule_key s opn path = key" using Cons.prems(4) c by simp
  let ?s1 = "s\<lparr>logged := logged s @ [(opn, path)],
               allow_rules := AList.update key (count_rule (int (length cs))) (allow_rules s)\<rparr>"
  have step: "check_and_prompt opn path s = (Inr (), ?s1)"
    using check_count_rule [of s opn path "int (length (c # cs))"] Cons.prems(1-3) k
    by simp
  have keys: "\<forall>c \<in> set cs. rule_key ?s1 (fst c) (snd c) = key"
    using Cons.prems(4) by (simp add: rule_key_def)
  have ih: "fst (checks cs ?s1) = replicate (length cs) (Inr ())
       \<and> console (snd (checks cs ?s1)) = console ?s1
       \<and> inputs (snd (checks cs ?s1)) = inputs ?s1
       \<and> ask (snd (checks cs ?s1)) \<and> \<not> global_allow_all (snd (checks cs ?s1))
       \<and> ask_scope (snd (checks cs ?s1)) = ask_scope ?s1
       \<and> map_of (allow_rules (snd (checks cs ?s1))) key = Some (count_rule 0)"
    using Cons.prems(1,2) keys
    by (intro Cons.IH) (simp_all add: update_conv')
  show ?case
    using ih by (simp add: c step split_def)
qed


lemma allowed_engine:
  "ask (snd (allowed r s)) = ask s" "global_allow_all (snd (allowed r s)) = global_allow_all s"
  "ask_scope (snd (allowed r s)) = ask_scope s" "console (snd (allowed r s)) = console s"
  "inputs (snd (allowed r s)) = inputs s" "allow_rules (snd (allowed r s)) = allow_rules s"
  "logged (snd (allowed r s)) = logged s"
  by (simp_all add: allowed_def now_ts_def split_def split: option.splits)

lemma allowed_logged:
  "fst (allowed r (s\<lparr>logged := l\<rparr>)) = fst (allowed r s)"
  by (simp add: allowed_def now_ts_def split_def split: option.splits)

lemma check_prompts:
  assumes "prompts opn path s"
  shows "\<exists>s0. check_and_prompt opn path s = prompt opn path (rule_key s opn path) (inputs s) s0
            \<and> ask s0 \<and> \<not> global_allow_all s0 \<and> ask_scope s0 = ask_scope s
            \<and> console s0 = console s \<and> inputs s0 = inputs s
            \<and> logged s0 = logged s @ [(opn, path)]"
proof -
  let ?s0 = "s\<lparr>logged := logged s @ [(opn, path)]\<rparr>"
  let ?key = "rule_key s opn path"
  have a: "ask s" "\<not> global_allow_all s" using assms by (simp_all add: prompts_def)
  show ?thesis
  proof (cases "map_of (allow_rules s) ?key")
    case None
    then have "check_and_prompt opn path s = prompt opn path ?key (inputs s) ?s0"
      using a by (simp add: check_and_prompt_def Let_def rule_key_def)
    then show ?thesis using a by (intro exI [of _ ?s0]) simp
  next
    case (Some r)
    then have na: "\<not> fst (allowed r ?s0)"
      using assms by (simp add: prompts_def allowed_logged)
    let ?s1 = "(snd (allowed r ?s0))\<lparr>allow_rules := AList.delete ?key (allow_rules (snd (allowed r ?s0)))\<rparr>"
    have "check_and_prompt opn path s = prompt opn path ?key (inputs (snd (allowed r ?s0))) ?s1"
      using a Some na by (simp add: check_and_prompt_def Let_def rule_key_def split_def)
    then show ?thesis
      using a by (intro exI [of _ ?s1]) (simp add: allowed_engine)
  qed
qed

text \<open>
  C5. With prompts on and allow-all unset, let a check reach the prompt (no rule under its
  key, or one used up or expired) and be answered with the digits of a positive number
  \<open>N\<close>. The call is approved and a count rule with \<open>N\<close> uses left is stored. The next
  \<open>N\<close> checks under the same key are all approved with nothing printed and nothing read;
  the check after them reaches the prompt and prints the question again.
\<close>

theorem count_grant:
  assumes "prompts opn path s"
    and "inputs s = l # ls" and "isdigit (strip l)" and "0 < int_of_digits (strip l)"
    and "length cs = nat (int_of_digits (strip l))"
    and "\<forall>c \<in> set cs. rule_key s (fst c) (snd c) = rule_key s opn path"
    and "rule_key s opn' path' = rule_key s opn path"
  shows "let key = rule_key s opn path;
             s1 = after_check opn path s;
             s2 = snd (checks cs s1);
             s3 = after_check opn' path' s2
         in authorized opn path s
            \<and> console s1 = console s @ [Prompt opn path]
            \<and> map_of (allow_rules s1) key = Some (count_rule (int_of_digits (strip l)))
            \<and> fst (checks cs s1) = replicate (length cs) (Inr ())
            \<and> console s2 = console s1 \<and> inputs s2 = inputs s1
            \<and> prompts opn' path' s2
            \<and> (\<exists>es. console s3 = console s2 @ Prompt opn' path' # es)"
proof -
  let ?key = "rule_key s opn path"
  let ?N = "int_of_digits (strip l)"
  obtain s0 where s0: "check_and_prompt opn path s = prompt opn path ?key (inputs s) s0"
      "ask s0" "\<not> global_allow_all s0" "ask_scope s0 = ask_scope s" "console s0 = console s"
    using check_prompts [OF assms(1)] by blast
  let ?s1 = "s0\<lparr>console := console s0 @ [Prompt opn path], inputs := ls,
                 allow_rules := AList.update ?key (count_rule ?N) (allow_rules s0)\<rparr>"
  have first: "check_and_prompt opn path s = (Inr (), ?s1)"
    unfolding s0(1) assms(2) using assms(3) by (rule prompt_count_answer)
  have s1: "after_check opn path s = ?s1" and a: "authorized opn path s"
    using first by (simp_all add: after_check_def authorized_def)
  have keys: "\<forall>c \<in> set cs. rule_key ?s1 (fst c) (snd c) = ?key"
    using assms(6) s0(4) by (simp add: rule_key_def)
  have len: "int (length cs) = ?N" using assms(4,5) by simp
  have mid: "fst (checks cs ?s1) = replicate (length cs) (Inr ())
       \<and> console (snd (checks cs ?s1)) = console ?s1
       \<and> inputs (snd (checks cs ?s1)) = inputs ?s1
       \<and> ask (snd (checks cs ?s1)) \<and> \<not> global_allow_all (snd (checks cs ?s1))
       \<and> ask_scope (snd (checks cs ?s1)) = ask_scope ?s1
       \<and> map_of (allow_rules (snd (checks cs ?s1))) ?key = Some (count_rule 0)"
    using s0(2,3) keys len
    by (intro checks_count_rule) (simp_all add: update_conv')
  let ?s2 = "snd (checks cs ?s1)"
  have k2: "rule_key ?s2 opn' path' = ?key"
    using mid assms(7) s0(4) by (simp add: rule_key_def)
  have p2: "prompts opn' path' ?s2"
    using mid k2 by (simp add: prompts_def allowed_def count_rule_def)
  obtain t where "check_and_prompt opn' path' ?s2
                    = prompt opn' path' (rule_key ?s2 opn' path') (inputs ?s2) t"
      "console t = console ?s2"
    using check_prompts [OF p2] by blast
  moreover obtain es where "console (snd (prompt opn' path' (rule_key ?s2 opn' path') (inputs ?s2) t))
                     = console t @ Prompt opn' path' # es"
    using prompt_console by blast
  ultimately have "\<exists>es. console (after_check opn' path' ?s2) = console ?s2 @ Prompt opn' path' # es"
    by (simp add: after_check_def)
  then show ?thesis
    using a mid p2 s0(5) unfolding Let_def s1 by (simp add: update_conv')
qed

lemma asking_fields:
  "ask asking" "\<not> global_allow_all asking" "allow_rules asking = []"
  "inputs asking = [''3'', ''n'']" "ask_scope asking = ''op''" "console asking = []"
  by (simp_all add: asking_def init_def now_node_def now_ts_def alloc_def Let_def)

theorem count_grant_witness:
  "let cs = [(''read'', ''/secret''), (''read'', ''/secret''), (''read'', ''/secret'')];
       s1 = after_check ''read'' ''/secret'' asking;
       s2 = snd (checks cs s1);
       s3 = after_check ''read'' ''/secret'' s2
   in prompts ''read'' ''/secret'' asking \<and> inputs asking = [''3'', ''n'']
      \<and> isdigit (strip ''3'') \<and> int_of_digits (strip ''3'') = 3
      \<and> authorized ''read'' ''/secret'' asking
      \<and> console s1 = [Prompt ''read'' ''/secret'']
      \<and> fst (checks cs s1) = [Inr (), Inr (), Inr ()]
      \<and> console s2 = console s1
      \<and> prompts ''read'' ''/secret'' s2
      \<and> (\<exists>es. console s3 = console s2 @ Prompt ''read'' ''/secret'' # es)"
proof -
  have d: "isdigit (strip ''3'')" "int_of_digits (strip ''3'') = 3"
    by (simp_all add: isdigit_def is_digit_char_def strip_def is_space_def int_of_digits_def)
  have p: "prompts ''read'' ''/secret'' asking"
    by (simp add: prompts_def asking_fields)
  show ?thesis
    using count_grant [of "''read''" "''/secret''" asking "''3''" "[''n'']"
        "[(''read'', ''/secret''), (''read'', ''/secret''), (''read'', ''/secret'')]"
        "''read''" "''/secret''", OF p asking_fields(4) d(1)] d p asking_fields
    by (auto simp: Let_def numeral_3_eq_3 simp del: checks.simps)
qed

subsection \<open>The allow-all flag\<close>

lemma now_ts_flag [simp]: "global_allow_all (snd (now_ts s)) = global_allow_all s"
  by (simp add: now_ts_def)

lemma store_ops_flag:
  "global_allow_all (snd (access_store p s)) = global_allow_all s"
  "global_allow_all (snd (getattr_store p s)) = global_allow_all s"
  "global_allow_all (snd (readdir_store p s)) = global_allow_all s"
  "global_allow_all (snd (open_store p s)) = global_allow_all s"
  "global_allow_all (snd (statfs p s)) = global_allow_all s"
  "global_allow_all (snd (read_store p n off s)) = global_allow_all s"
  "global_allow_all (snd (utimens_store p tm s)) = global_allow_all s"
  "global_allow_all (snd (chmod_store p m s)) = global_allow_all s"
  "global_allow_all (snd (chown_store p u g s)) = global_allow_all s"
  by (simp_all add: access_store_def getattr_store_def readdir_store_def open_store_def
        statfs_def read_store_def utimens_store_def chmod_store_def chown_store_def
        Let_def split_def now_ts_def split: sum.splits option.splits)

lemma write_store_flag:
  "global_allow_all (snd (write_store p d off s)) = global_allow_all s"
  by (simp add: write_store_def Let_def split_def now_ts_def split: sum.splits)

lemma truncate_store_flag:
  "global_allow_all (snd (truncate_store p n s)) = global_allow_all s"
  by (simp add: truncate_store_def Let_def split_def now_ts_def split: sum.splits)

lemma create_store_flag:
  "global_allow_all (snd (create_store p m s)) = global_allow_all s"
  by (simp add: create_store_def Let_def split_def now_ts_def now_node_def alloc_def
        split: sum.splits)

lemma mkdir_store_flag:
  "global_allow_all (snd (mkdir_store p m s)) = global_allow_all s"
  by (simp add: mkdir_store_def Let_def split_def now_ts_def now_node_def alloc_def
        split: sum.splits)

lemma rmdir_store_flag:
  "global_allow_all (snd (rmdir_store p s)) = global_allow_all s"
  by (simp add: rmdir_store_def Let_def split_def now_ts_def split: sum.splits)

lemma unlink_store_flag:
  "global_allow_all (snd (unlink_store p s)) = global_allow_all s"
  by (simp add: unlink_store_def Let_def split_def now_ts_def split: sum.splits)

lemma rename_target_flag:
  "global_allow_all (snd (rename_target np nn new s)) = global_allow_all s"
  by (simp add: rename_target_def Let_def split: option.splits)

lemma rename_store_flag:
  "global_allow_all (snd (rename_store p q s)) = global_allow_all s"
  by (simp add: rename_store_def Let_def split_def now_ts_def rename_target_flag
        split: sum.splits)

lemma check_allow_all:
  "global_allow_all s \<Longrightarrow>
   check_and_prompt opn path s = (Inr (), s\<lparr>logged := logged s @ [(opn, path)]\<rparr>)"
  by (simp add: check_and_prompt_def Let_def)

lemma guarded_flag:
  assumes "\<And>t. global_allow_all (snd (body t)) = global_allow_all t" and "global_allow_all s"
  shows "global_allow_all (snd (guarded opn path body s))"
  using assms by (simp add: guarded_def check_allow_all)

lemma exec_flag: "global_allow_all s \<Longrightarrow> global_allow_all (exec c s)"
proof (cases c)
  case (Rename p q)
  assume g: "global_allow_all s"
  let ?s0 = "s\<lparr>logged := logged s @ [(''rename'', p)]\<rparr>"
  have "global_allow_all ?s0" using g by simp
  then have "global_allow_all (snd (guarded ''rename'' q (rename_store p q) ?s0))"
    by (intro guarded_flag) (simp_all add: rename_store_flag)
  then show ?thesis
    using g by (simp add: Rename rename_def guarded_def [of "''rename''" p] check_allow_all)
qed (simp_all add: access_def getattr_def readdir_def mkdir_def rmdir_def unlink_def
      open_file_def create_def read_def write_file_def truncate_def utimens_def chmod_def
      chown_def guarded_flag store_ops_flag write_store_flag truncate_store_flag
      create_store_flag mkdir_store_flag rmdir_store_flag unlink_store_flag)

lemma run_flag: "global_allow_all s \<Longrightarrow> global_allow_all (run cs s)"
  unfolding run_def by (induction cs arbitrary: s) (simp_all add: exec_flag)

lemma prompt_allow_all_answer:
  assumes "lower (strip l) = ''a''"
  shows "prompt opn path key (l # ls) s =
           (Inr (), s\<lparr>console := console s @ [Prompt opn path], inputs := ls,
                      global_allow_all := True\<rparr>)"
proof -
  have "strip l \<noteq> []" using assms by (auto simp: lower_def)
  then show ?thesis using assms by (simp add: Let_def)
qed

text \<open>
  C7. The allow-all flag is false in the initial state. Answering the prompt of a check
  with \<open>a\<close> (either case, blanks around it) approves the call and sets the flag. No sequence of calls clears
  it. While it is set, every check is approved at once: the only change to the state is the
  log entry with the operation name and the path, so nothing is printed or read and the
  rule table is neither looked at nor changed.
\<close>

theorem allow_all_is_final:
  "\<not> global_allow_all (init cap a scope clk ins u g)
   \<and> (prompts opn path s \<and> inputs s = l # ls \<and> lower (strip l) = ''a''
      \<longrightarrow> authorized opn path s \<and> global_allow_all (after_check opn path s))
   \<and> (global_allow_all s \<longrightarrow> global_allow_all (run cs s))
   \<and> (global_allow_all s \<longrightarrow>
        check_and_prompt opn' path' s = (Inr (), s\<lparr>logged := logged s @ [(opn', path')]\<rparr>))"
proof (intro conjI impI)
  show "\<not> global_allow_all (init cap a scope clk ins u g)"
    by (simp add: init_def now_node_def now_ts_def alloc_def Let_def)
next
  assume h: "prompts opn path s \<and> inputs s = l # ls \<and> lower (strip l) = ''a''"
  then obtain s0 where
    "check_and_prompt opn path s = prompt opn path (rule_key s opn path) (l # ls) s0"
    using check_prompts [of opn path s] by auto
  then have "check_and_prompt opn path s =
      (Inr (), s0\<lparr>console := console s0 @ [Prompt opn path], inputs := ls,
                  global_allow_all := True\<rparr>)"
    using h prompt_allow_all_answer [of l opn path "rule_key s opn path" ls s0] by simp
  then show "authorized opn path s" and "global_allow_all (after_check opn path s)"
    by (simp_all add: authorized_def after_check_def)
next
  assume "global_allow_all s"
  then show "global_allow_all (run cs s)" by (rule run_flag)
next
  assume "global_allow_all s"
  then show "check_and_prompt opn' path' s = (Inr (), s\<lparr>logged := logged s @ [(opn', path')]\<rparr>)"
    by (rule check_allow_all)
qed

theorem allow_all_is_final_witness:
  "let s = init 20 True ''op'' (\<lambda>n. real n) ['' A '', ''n''] 1000 1000;
       t = after_check ''getattr'' ''/'' s;
       cs = [Create ''/f'' 420, Write ''/f'' digits 0, Rename ''/f'' ''/g'', Unlink ''/g'']
   in prompts ''getattr'' ''/'' s \<and> inputs s = ['' A '', ''n''] \<and> lower (strip '' A '') = ''a''
      \<and> authorized ''getattr'' ''/'' s \<and> global_allow_all t
      \<and> global_allow_all (run cs t)
      \<and> check_and_prompt ''unlink'' ''/x'' t = (Inr (), t\<lparr>logged := logged t @ [(''unlink'', ''/x'')]\<rparr>)
      \<and> console (run cs t) = [Prompt ''getattr'' ''/'']"
proof -
  let ?s = "init 20 True ''op'' (\<lambda>n. real n) ['' A '', ''n''] 1000 1000"
  let ?t = "after_check ''getattr'' ''/'' ?s"
  let ?cs = "[Create ''/f'' 420, Write ''/f'' digits 0, Rename ''/f'' ''/g'', Unlink ''/g'']"
  have f: "prompts ''getattr'' ''/'' ?s" "inputs ?s = ['' A '', ''n'']"
    by (simp_all add: prompts_def init_def now_node_def now_ts_def alloc_def Let_def)
  have l: "lower (strip '' A '') = ''a''"
    by code_simp
  have c: "console (run ?cs ?t) = [Prompt ''getattr'' ''/'']"
    by (simp add: eval_defs create_def write_file_def rename_def unlink_def create_store_def
          write_store_def rename_store_def rename_target_def unlink_store_def rule_key_def
          strip_def is_space_def l [unfolded strip_def is_space_def, simplified])
  show ?thesis
    using allow_all_is_final [of 20 True "''op''" "\<lambda>n. real n" "['' A '', ''n'']" 1000 1000
        "''getattr''" "''/''" ?s "'' A ''" "[''n'']" ?cs "''unlink''" "''/x''"]
      allow_all_is_final [of 20 True "''op''" "\<lambda>n. real n" "['' A '', ''n'']" 1000 1000
        "''getattr''" "''/''" ?t "'' A ''" "[''n'']" ?cs "''unlink''" "''/x''"] f l c
    by (simp add: Let_def)
qed

lemmas ops_defs = access_def getattr_def readdir_def mkdir_def rmdir_def unlink_def rename_def
  open_file_def create_def read_def write_file_def truncate_def utimens_def chmod_def chown_def
  access_store_def getattr_store_def readdir_store_def mkdir_store_def rmdir_store_def
  unlink_store_def rename_store_def rename_target_def open_store_def create_store_def
  read_store_def write_store_def truncate_store_def utimens_store_def chmod_store_def
  chown_store_def

subsection \<open>Attribute changes\<close>

text \<open>
  What the three attribute setters do to a node that exists: the paths, \<open>used\<close> and every
  other node stay as they are, and of the node itself only the fields named change.
  \<open>chmod\<close> and \<open>chown\<close> set the change time to the clock; \<open>utimens\<close> does not touch it.
\<close>

lemma attr_ops_frame:
  assumes "map_of (files s) path = Some a" and "a < length (heap s)"
  shows "authorized ''utimens'' path s \<Longrightarrow>
           (let t = snd (utimens path tm s)
            in fst (utimens path tm s) = Inr () \<and> files t = files s \<and> used t = used s
               \<and> length (heap t) = length (heap s)
               \<and> (\<forall>b. b \<noteq> a \<longrightarrow> heap t ! b = heap s ! b)
               \<and> heap t ! a = (heap s ! a)\<lparr>atime := atime (heap t ! a),
                                              mtime := mtime (heap t ! a)\<rparr>)"
    and "authorized ''chmod'' path s \<Longrightarrow>
           (let t = snd (chmod path md s)
            in fst (chmod path md s) = Inr 0 \<and> files t = files s \<and> used t = used s
               \<and> length (heap t) = length (heap s)
               \<and> (\<forall>b. b \<noteq> a \<longrightarrow> heap t ! b = heap s ! b)
               \<and> heap t ! a = (heap s ! a)\<lparr>mode := mode (heap t ! a),
                      ctime := clock (after_check ''chmod'' path s)
                                 (ticks (after_check ''chmod'' path s))\<rparr>)"
    and "authorized ''chown'' path s \<Longrightarrow>
           (let t = snd (chown path u g s)
            in fst (chown path u g s) = Inr 0 \<and> files t = files s \<and> used t = used s
               \<and> length (heap t) = length (heap s)
               \<and> (\<forall>b. b \<noteq> a \<longrightarrow> heap t ! b = heap s ! b)
               \<and> heap t ! a = (heap s ! a)\<lparr>uid := u, gid := g,
                      ctime := clock (after_check ''chown'' path s)
                                 (ticks (after_check ''chown'' path s))\<rparr>)"
  using assms
  by (simp_all add: utimens_def chmod_def chown_def guarded_authorized utimens_store_def
        chmod_store_def chown_store_def fs_get_def after_check_store Let_def split_def
        now_ts_def split: option.splits)

text \<open>
  C9. The claim has \<open>utimens\<close>, like \<open>chmod\<close> and \<open>chown\<close>, update the change time. On a
  file created at time 1, with the clock at 3, \<open>utimens\<close> sets the access and modification
  times (to 3 and 4 with no argument, to 7 and 8 when given) and leaves the change time at
  1, where \<open>chmod\<close> and \<open>chown\<close> on the same state set it to 3.
\<close>

theorem utimens_keeps_ctime:
  "let s = snd (create ''/f'' 420 demo);
       t = snd (utimens ''/f'' None s);
       t' = snd (utimens ''/f'' (Some (7, 8)) s)
   in map_of (files s) ''/f'' = Some 1 \<and> ctime (heap s ! 1) = 1 \<and> clock s (ticks s) = 3
      \<and> fst (utimens ''/f'' None s) = Inr ()
      \<and> atime (heap t ! 1) = 3 \<and> mtime (heap t ! 1) = 4 \<and> ctime (heap t ! 1) = 1
      \<and> atime (heap t' ! 1) = 7 \<and> mtime (heap t' ! 1) = 8 \<and> ctime (heap t' ! 1) = 1
      \<and> ctime (heap (snd (chmod ''/f'' 384 s)) ! 1) = 3
      \<and> ctime (heap (snd (chown ''/f'' 0 0 s)) ! 1) = 3"
  by (simp add: eval_defs ops_defs)

subsection \<open>Link counts\<close>

text \<open>
  C6. The claim is that every directory's link count is 2 plus the number of its child
  directories after every operation, a rename between parents included. After
  \<open>mkdir /a\<close>, \<open>mkdir /b\<close> the counts are right; \<open>rename /a /b/a\<close> succeeds and leaves the
  root with count 4 and one child directory, and \<open>/b\<close> with count 2 and one child
  directory: \<open>mkdir\<close> and \<open>rmdir\<close> adjust the parent's count, \<open>rename\<close> does not.
\<close>

theorem rename_dir_breaks_links:
  "let s = run [Mkdir ''/a'' 493, Mkdir ''/b'' 493] demo;
       t = snd (rename ''/a'' ''/b/a'' s)
   in links_ok demo \<and> links_ok s \<and> fst (rename ''/a'' ''/b/a'' s) = Inr ()
      \<and> files t = [(''/'', 0), (''/b'', 2), (''/b/a'', 1)]
      \<and> nlink (heap t ! 0) = 4 \<and> child_dirs t 0 = 1
      \<and> nlink (heap t ! 2) = 2 \<and> child_dirs t 2 = 1
      \<and> \<not> links_ok t"
  by (simp add: eval_defs ops_defs links_ok_def child_dirs_def)

subsection \<open>Renaming\<close>

text \<open>
  In a tree whose directory entries agree with the path table, renaming onto an existing
  file at another place replaces it: the new path holds the source node, the old path is
  gone, \<open>used\<close> drops by the target's size and no node's bytes change. Renaming onto a
  directory entry fails with \<open>EISDIR\<close> and the state is the one given.
\<close>

lemma rename_over_file:
  assumes "map_of (files s) old = Some a"
    and "ensure_parent old s = Inr (opa, old_name)"
    and "ensure_parent new s = Inr (np, new_name)"
    and "map_of (children (heap s ! opa)) old_name = Some a"
    and "map_of (children (heap s ! np)) new_name = Some t"
    and "map_of (files s) new = Some t" and "\<not> is_dir (heap s ! t)"
    and "old \<noteq> new" and "(opa, old_name) \<noteq> (np, new_name)"
    and "opa < length (heap s)" and "np < length (heap s)"
  shows "fst (rename_store old new s) = Inr ()
       \<and> map_of (files (snd (rename_store old new s))) new = Some a
       \<and> map_of (files (snd (rename_store old new s))) old = None
       \<and> used (snd (rename_store old new s)) = used s - size_n (heap s ! t)
       \<and> (\<forall>b. data (heap (snd (rename_store old new s)) ! b) = data (heap s ! b))"
proof (cases "opa = np")
  case True
  then have "old_name \<noteq> new_name" using assms(9) by simp
  then show ?thesis
    using assms True
    by (simp add: rename_store_def rename_target_def fs_get_def has_key_def del_child_def
          set_child_def touch_mc_def Let_def split_def now_ts_def update_conv' delete_conv'
          nth_list_update)
next
  case False
  then show ?thesis
    using assms
    by (simp add: rename_store_def rename_target_def fs_get_def has_key_def del_child_def
          set_child_def touch_mc_def Let_def split_def now_ts_def update_conv' delete_conv'
          nth_list_update)
qed

lemma rename_onto_dir:
  assumes "map_of (files s) old = Some a"
    and "ensure_parent old s = Inr (opa, old_name)"
    and "ensure_parent new s = Inr (np, new_name)"
    and "map_of (children (heap s ! np)) new_name = Some t" and "is_dir (heap s ! t)"
  shows "rename_store old new s = (Inl EISDIR, s)"
  using assms by (simp add: rename_store_def rename_target_def fs_get_def)

text \<open>
  The root has no entry in its own children, so a rename onto \<^verbatim>\<open>/\<close> finds no target to
  refuse: it succeeds and the path of the root then holds the file.
\<close>

lemma rename_onto_root_succeeds:
  "let s = run [Create ''/f'' 420, Write ''/f'' digits 0] demo;
       t = snd (rename ''/f'' ''/'' s)
   in map_of (files s) ''/'' = Some 0 \<and> is_dir (heap s ! 0)
      \<and> fst (rename ''/f'' ''/'' s) = Inr ()
      \<and> files t = [(''/'', 1)] \<and> \<not> is_dir (heap t ! 1) \<and> used t = 10"
  by (simp add: eval_defs ops_defs)

text \<open>
  C4. The claim covers every rename whose source exists, so also the rename of a file onto
  its own path, where the new path should still hold the source's content. There the
  target block removes the entry, the path and the bytes from \<open>used\<close>, and the next
  statement, deleting the source's entry, finds it gone: the call ends in \<open>KeyError\<close>
  with the file lost.
\<close>

theorem rename_onto_itself_loses_file:
  "let s = run [Create ''/f'' 420, Write ''/f'' digits 0] demo;
       t = snd (rename ''/f'' ''/f'' s)
   in map_of (files s) ''/f'' = Some 1 \<and> data (heap s ! 1) = digits \<and> used s = 10
      \<and> fst (rename ''/f'' ''/f'' s) = Inl KeyError
      \<and> map_of (files t) ''/f'' = None \<and> children (heap t ! 0) = [] \<and> used t = 0
      \<and> fst (read ''/f'' 10 0 t) = Inl ENOENT"
  by (simp add: eval_defs ops_defs)

subsection \<open>Space accounting\<close>

lemma fs_split_root:
  assumes "absolute p" and "fs_split p = (''/'', name)"
  shows "p = ''/'' @ name"
proof -
  define tl' where "tl' = rev (takeWhile (\<lambda>c. c \<noteq> CHR ''/'') (rev p))"
  define hd' where "hd' = rev (dropWhile (\<lambda>c. c \<noteq> CHR ''/'') (rev p))"
  have p: "p = hd' @ tl'"
    unfolding hd'_def tl'_def
  proof -
    have "rev p = takeWhile (\<lambda>c. c \<noteq> CHR ''/'') (rev p) @ dropWhile (\<lambda>c. c \<noteq> CHR ''/'') (rev p)"
      by simp
    then have "rev (rev p) = rev (takeWhile (\<lambda>c. c \<noteq> CHR ''/'') (rev p)
                 @ dropWhile (\<lambda>c. c \<noteq> CHR ''/'') (rev p))"
      by simp
    then show "p = rev (dropWhile (\<lambda>c. c \<noteq> CHR ''/'') (rev p))
                 @ rev (takeWhile (\<lambda>c. c \<noteq> CHR ''/'') (rev p))"
      by (simp only: rev_append rev_rev_ident)
  qed
  have "CHR ''/'' \<in> set p"
    using assms(1) by (cases p) (auto simp: absolute_def)
  then have ne: "hd' \<noteq> []"
    unfolding hd'_def by (auto simp: dropWhile_eq_Nil_conv)
  show ?thesis
  proof (cases "list_all (\<lambda>c. c = CHR ''/'') hd'")
    case True
    then have "os_path_split p = (hd', tl')"
      by (simp add: os_path_split_def Let_def hd'_def tl'_def)
    then have "hd' = ''/''" "name = tl'"
      using assms(2) ne by (auto simp: fs_split_def split: if_splits)
    then show ?thesis using p by simp
  next
    case False
    let ?d = "dropWhile (\<lambda>c. c = CHR ''/'') (rev hd')"
    have split: "os_path_split p = (rev ?d, tl')"
      using False ne by (simp add: os_path_split_def Let_def hd'_def tl'_def)
    have dne: "?d \<noteq> []"
      using False by (auto simp: dropWhile_eq_Nil_conv list_all_iff)
    then have "hd ?d \<noteq> CHR ''/''"
      using hd_dropWhile [of "\<lambda>c. c = CHR ''/''" "rev hd'"] by simp
    moreover have "rev ?d = ''/''"
      using assms(2) split dne by (auto simp: fs_split_def split: if_splits)
    then have "?d = ''/''" by (simp only: rev_singleton_conv)
    ultimately show ?thesis by simp
  qed
qed

lemma total_file_size_wsum:
  assumes "distinct (map fst (files s))"
  shows "total_file_size s
           = wsum (map_of (files s)) (\<lambda>a. is_dir (heap s ! a)) (\<lambda>a. size_n (heap s ! a))"
proof -
  have "ran (map_of (files s)) = snd ` set (files s)"
    using assms by (rule ran_distinct)
  then have "{a \<in> ran (map_of (files s)). \<not> is_dir (heap s ! a)} = set (file_addrs s)"
    by (auto simp: file_addrs_def)
  moreover have "distinct (file_addrs s)" by (simp add: file_addrs_def)
  ultimately show ?thesis
    by (simp add: total_file_size_def wsum_def sum_list_distinct_conv_sum_set)
qed

lemma wsum_cong:
  assumes "\<And>a. a \<in> ran F \<Longrightarrow> D' a = D a \<and> (\<not> D a \<longrightarrow> S' a = S a)"
  shows "wsum F D' S' = wsum F D S"
proof -
  have "{a \<in> ran F. \<not> D' a} = {a \<in> ran F. \<not> D a}" using assms by auto
  then show ?thesis unfolding wsum_def using assms by (auto intro: sum.cong)
qed

lemma wsum_size_upd:
  assumes "finite (ran F)" and "a \<in> ran F" and "\<not> D a"
  shows "wsum F D (S(a := v)) = wsum F D S - S a + v"
proof -
  let ?A = "{x \<in> ran F. \<not> D x}"
  have fin: "finite ?A" using assms(1) by simp
  have a: "a \<in> ?A" using assms by simp
  have "sum (S(a := v)) ?A = v + sum (S(a := v)) (?A - {a})"
    using fin a by (simp add: sum.remove)
  moreover have "sum S ?A = S a + sum S (?A - {a})"
    using fin a by (simp add: sum.remove)
  moreover have "sum (S(a := v)) (?A - {a}) = sum S (?A - {a})"
    by (rule sum.cong) auto
  ultimately show ?thesis by (simp add: wsum_def)
qed

lemma ran_del_inj:
  assumes "F p = Some a" and "\<And>q. F q = Some a \<Longrightarrow> q = p"
  shows "ran (F(p := None)) = ran F - {a}"
proof (rule set_eqI)
  fix x
  show "x \<in> ran (F(p := None)) \<longleftrightarrow> x \<in> ran F - {a}"
  proof
    assume "x \<in> ran (F(p := None))"
    then obtain q where q: "q \<noteq> p" "F q = Some x" by (auto simp: ran_def split: if_splits)
    then have "x \<noteq> a" using assms(2) by auto
    then show "x \<in> ran F - {a}" using q by (auto simp: ran_def)
  next
    assume "x \<in> ran F - {a}"
    then obtain q where q: "F q = Some x" "x \<noteq> a" by (auto simp: ran_def)
    then have "q \<noteq> p" using assms(1) by auto
    then show "x \<in> ran (F(p := None))" using q by (auto simp: ran_def)
  qed
qed

lemma wsum_del:
  assumes "finite (ran F)" and "F p = Some a" and "\<And>q. F q = Some a \<Longrightarrow> q = p"
  shows "wsum (F(p := None)) D S = wsum F D S - (if D a then 0 else S a)"
proof -
  have r: "ran (F(p := None)) = ran F - {a}" using assms(2,3) by (rule ran_del_inj)
  have ain: "a \<in> ran F" using assms(2) by (auto simp: ran_def)
  show ?thesis
  proof (cases "D a")
    case True
    then have "{x \<in> ran F - {a}. \<not> D x} = {x \<in> ran F. \<not> D x}" by auto
    then show ?thesis using True by (simp add: wsum_def r)
  next
    case False
    let ?A = "{x \<in> ran F. \<not> D x}"
    have eq: "{x \<in> ran F - {a}. \<not> D x} = ?A - {a}" by auto
    have fin: "finite ?A" using assms(1) by simp
    have "a \<in> ?A" using ain False by simp
    with fin have "sum S ?A = S a + sum S (?A - {a})"
      by (rule sum.remove)
    moreover have "wsum (F(p := None)) D S = sum S (?A - {a})"
      unfolding wsum_def r eq ..
    moreover have "wsum F D S = sum S ?A" unfolding wsum_def ..
    ultimately show ?thesis using False by simp
  qed
qed

lemma wsum_add:
  assumes "finite (ran F)" and "F p = None" and "a \<notin> ran F"
  shows "wsum (F(p \<mapsto> a)) D S = wsum F D S + (if D a then 0 else S a)"
proof -
  have r: "ran (F(p \<mapsto> a)) = insert a (ran F)" using assms(2) by simp
  show ?thesis
  proof (cases "D a")
    case True
    then have "{x \<in> insert a (ran F). \<not> D x} = {x \<in> ran F. \<not> D x}" by auto
    then show ?thesis using True by (simp add: wsum_def r)
  next
    case False
    then have eq: "{x \<in> insert a (ran F). \<not> D x} = insert a {x \<in> ran F. \<not> D x}" by auto
    let ?A = "{x \<in> ran F. \<not> D x}"
    have fin: "finite ?A" using assms(1) by simp
    have "a \<notin> ?A" using assms(3) by simp
    with fin have "sum S (insert a ?A) = S a + sum S ?A" by (rule sum.insert)
    moreover have "wsum (F(p \<mapsto> a)) D S = sum S (insert a ?A)"
      unfolding wsum_def r eq ..
    moreover have "wsum F D S = sum S ?A" unfolding wsum_def ..
    ultimately show ?thesis using False by simp
  qed
qed

lemma finite_ran_map_of: "finite (ran (map_of al))"
proof (rule finite_subset)
  show "ran (map_of al) \<subseteq> snd ` set al"
  proof
    fix x assume "x \<in> ran (map_of al)"
    then obtain k where "map_of al k = Some x" by (auto simp: ran_def)
    then have "(k, x) \<in> set al" by (rule map_of_SomeD)
    then show "x \<in> snd ` set al" by force
  qed
  show "finite (snd ` set al)" by simp
qed

lemma shape_cong:
  assumes "shape fs h" and "length h \<le> length h'"
    and "\<And>x. x < length h \<Longrightarrow> is_dir (h' ! x) = is_dir (h ! x)"
    and "\<And>r. r < length h \<Longrightarrow> is_dir (h ! r) \<Longrightarrow> children (h' ! r) = children (h ! r)"
  shows "shape fs h'"
proof -
  have b: "\<And>p a. map_of fs p = Some a \<Longrightarrow> a < length h"
    using assms(1) unfolding shape_def Let_def by blast
  show ?thesis
    using assms(1) unfolding shape_def Let_def
    apply (intro conjI allI impI)
          apply blast
    using assms(2) apply (meson b less_le_trans)
        apply blast
    by (metis b assms(3,4))+
qed


lemma nth_upd: "h[a := n] ! x = (if x = a \<and> a < length h then n else h ! x)"
proof (cases "a < length h")
  case True
  then show ?thesis by (auto simp: nth_list_update)
next
  case False
  then have "h[a := n] = h" by (simp add: list_update_beyond)
  then show ?thesis using False by simp
qed

lemma shape_bound: "shape fs h \<Longrightarrow> map_of fs p = Some a \<Longrightarrow> a < length h"
  unfolding shape_def Let_def by blast

lemma sinv_touch:
  assumes "sinv fs h u c" and "is_dir n' = is_dir (h ! a)" and "size_n n' = size_n (h ! a)"
    and "children n' = children (h ! a)"
  shows "sinv fs (h[a := n']) u c"
proof -
  have same: "is_dir (h[a := n'] ! x) = is_dir (h ! x)"
      "size_n (h[a := n'] ! x) = size_n (h ! x)"
      "children (h[a := n'] ! x) = children (h ! x)" for x
    using assms(2-4) by (simp_all add: nth_upd)
  have "shape fs (h[a := n'])"
    using assms(1) by (rule_tac h = h in shape_cong) (simp_all add: sinv_def same)
  then show ?thesis
    using assms(1) unfolding sinv_def same by simp
qed

lemma sinv_resize:
  assumes "sinv fs h u c" and "map_of fs p = Some a" and "\<not> is_dir (h ! a)"
    and "\<not> is_dir n'" and "u - size_n (h ! a) + size_n n' \<le> c" and "0 \<le> size_n n'"
  shows "sinv fs (h[a := n']) (u - size_n (h ! a) + size_n n') c"
proof -
  let ?F = "map_of fs"
  let ?h' = "h[a := n']"
  have sh: "shape fs h" using assms(1) by (simp add: sinv_def)
  have a: "a < length h" using sh assms(2) by (rule shape_bound)
  have d: "is_dir (?h' ! x) = is_dir (h ! x)" for x
    using assms(3,4) a by (cases "x = a") simp_all
  have sz: "(\<lambda>x. size_n (?h' ! x)) = (\<lambda>x. size_n (h ! x))(a := size_n n')"
    using a by (auto simp: fun_eq_iff)
  have ch: "is_dir (h ! r) \<Longrightarrow> children (?h' ! r) = children (h ! r)" for r
    using assms(3) by (cases "r = a") auto
  have ain: "a \<in> ran ?F" using assms(2) by (auto simp: ran_def)
  have w: "wsum ?F (\<lambda>x. is_dir (?h' ! x)) (\<lambda>x. size_n (?h' ! x))
             = wsum ?F (\<lambda>x. is_dir (h ! x)) (\<lambda>x. size_n (h ! x)) - size_n (h ! a) + size_n n'"
    unfolding d sz using finite_ran_map_of ain assms(3) by (rule wsum_size_upd)
  have "shape fs ?h'"
    using sh by (rule shape_cong) (simp_all add: d ch)
  moreover have "\<forall>x \<in> ran ?F. 0 \<le> size_n (?h' ! x)"
    using assms(1,6) by (auto simp: sinv_def nth_upd)
  ultimately show ?thesis
    using assms(1,5) unfolding sinv_def w by simp
qed


lemma shape_root:
  assumes "shape fs h" and "map_of fs ''/'' = Some r" and "is_dir (h ! r)"
  shows "r < length h"
    and "\<And>n c. map_of (children (h ! r)) n = Some c \<Longrightarrow> n \<noteq> [] \<and> map_of fs (''/'' @ n) = Some c"
    and "\<And>p a. map_of fs p = Some a \<Longrightarrow> p \<noteq> ''/'' \<Longrightarrow>
           p = ''/'' @ drop 1 p \<and> map_of (children (h ! r)) (drop 1 p) = Some a
           \<and> \<not> is_dir (h ! a)"
    and "\<And>p a. map_of fs p = Some a \<Longrightarrow> a < length h"
    and "\<And>p q a. map_of fs p = Some a \<Longrightarrow> map_of fs q = Some a \<Longrightarrow> p = q"
    and "distinct (map fst fs)"
proof -
  show "r < length h" using assms unfolding shape_def Let_def by blast
  show "n \<noteq> [] \<and> map_of fs (''/'' @ n) = Some c" if "map_of (children (h ! r)) n = Some c" for n c
    using assms that unfolding shape_def Let_def by blast
  show "p = ''/'' @ drop 1 p \<and> map_of (children (h ! r)) (drop 1 p) = Some a \<and> \<not> is_dir (h ! a)"
    if "map_of fs p = Some a" "p \<noteq> ''/''" for p a
  proof -
    have "take 1 p = ''/'' \<and> map_of (children (h ! r)) (drop 1 p) = Some a"
      using assms that unfolding shape_def Let_def by blast
    moreover have "p = take 1 p @ drop 1 p" by simp
    moreover have "\<not> is_dir (h ! a)"
      using assms(1) that unfolding shape_def Let_def by blast
    ultimately show ?thesis by metis
  qed
  show "a < length h" if "map_of fs p = Some a" for p a
    using assms(1) that unfolding shape_def Let_def by blast
  show "p = q" if "map_of fs p = Some a" "map_of fs q = Some a" for p q a
    using assms(1) that unfolding shape_def Let_def by blast
  show "distinct (map fst fs)" using assms(1) unfolding shape_def Let_def by blast
qed

lemma shape_del:
  assumes "shape fs h" and "map_of fs ''/'' = Some r" and "is_dir (h ! r)"
    and "map_of fs p = Some a" and "p \<noteq> ''/''"
    and "is_dir rn" and "children rn = AList.delete (drop 1 p) (children (h ! r))"
  shows "shape (AList.delete p fs) (h[r := rn])"
proof -
  note R = shape_root [OF assms(1-3)]
  let ?F' = "map_of (AList.delete p fs)"
  let ?h' = "h[r := rn]"
  have F': "?F' = (map_of fs)(p := None)" by (rule delete_conv')
  have d: "is_dir (?h' ! x) = is_dir (h ! x)" for x
    using assms(3,6) by (simp add: nth_upd)
  have ch: "map_of (children (?h' ! r)) = (map_of (children (h ! r)))(drop 1 p := None)"
    using R(1) assms(7) by (simp add: delete_conv')
  have pp: "p = ''/'' @ drop 1 p" using R(3) [OF assms(4,5)] by simp
  have k1: "distinct (map fst (AList.delete p fs))" using R(6) by (rule distinct_delete)
  have k2: "\<forall>q x. ?F' q = Some x \<longrightarrow> x < length ?h'"
    using R(4) by (auto simp: F' split: if_splits)
  have k3: "\<forall>q q' x. ?F' q = Some x \<longrightarrow> ?F' q' = Some x \<longrightarrow> q = q'"
    using R(5) by (auto simp: F' split: if_splits)
  have k6: "\<forall>q x. ?F' q = Some x \<longrightarrow> is_dir (?h' ! x) \<longrightarrow> q = ''/''"
    using assms(1) unfolding d shape_def Let_def by (auto simp: F' split: if_splits)
  have k7a: "\<forall>r' n c. ?F' ''/'' = Some r' \<longrightarrow> is_dir (?h' ! r') \<longrightarrow>
             map_of (children (?h' ! r')) n = Some c \<longrightarrow> n \<noteq> [] \<and> ?F' (''/'' @ n) = Some c"
  proof (intro allI impI)
    fix r' n c
    assume 1: "?F' ''/'' = Some r'" and 2: "map_of (children (?h' ! r')) n = Some c"
    have r': "r' = r" using 1 assms(2,5) by (simp add: F')
    have n: "n \<noteq> drop 1 p" "map_of (children (h ! r)) n = Some c"
      using 2 unfolding r' ch by (auto split: if_splits)
    have "''/'' @ n \<noteq> p" using n(1) pp by (metis same_append_eq)
    then show "n \<noteq> [] \<and> ?F' (''/'' @ n) = Some c"
      using R(2) [OF n(2)] by (simp add: F')
  qed
  have k7b: "\<forall>r' q x. ?F' ''/'' = Some r' \<longrightarrow> is_dir (?h' ! r') \<longrightarrow> ?F' q = Some x \<longrightarrow>
             q \<noteq> ''/'' \<longrightarrow> take 1 q = ''/'' \<and> map_of (children (?h' ! r')) (drop 1 q) = Some x"
  proof (intro allI impI)
    fix r' q x
    assume 1: "?F' ''/'' = Some r'" and 2: "?F' q = Some x" and 3: "q \<noteq> ''/''"
    have r': "r' = r" using 1 assms(2,5) by (simp add: F')
    have q: "q \<noteq> p" "map_of fs q = Some x" using 2 by (auto simp: F' split: if_splits)
    have qq: "q = ''/'' @ drop 1 q" "map_of (children (h ! r)) (drop 1 q) = Some x"
      using R(3) [OF q(2) 3] by simp_all
    have "drop 1 q \<noteq> drop 1 p" using q(1) qq(1) pp by metis
    moreover have "take 1 q = ''/''" using qq(1) by (metis append_eq_conv_conj length_Cons list.size(3) One_nat_def)
    ultimately show "take 1 q = ''/'' \<and> map_of (children (?h' ! r')) (drop 1 q) = Some x"
      unfolding r' ch using qq(2) by simp
  qed
  show ?thesis
    unfolding shape_def Let_def using k1 k2 k3 k6 k7a k7b by blast
qed


lemma slash_cons: "''/'' @ n = p \<Longrightarrow> n = drop 1 p"
  by auto

lemma shape_add:
  assumes "shape fs h" and "map_of fs ''/'' = Some r" and "is_dir (h ! r)"
    and "map_of (children (h ! r)) name = None" and "\<not> is_dir nd"
    and "is_dir rn" and "children rn = AList.update name (length h) (children (h ! r))"
  shows "shape (AList.update (''/'' @ name) (length h) fs) ((h @ [nd])[r := rn])"
proof -
  note R = shape_root [OF assms(1-3)]
  let ?p = "''/'' @ name"
  let ?L = "length h"
  let ?F' = "map_of (AList.update ?p ?L fs)"
  let ?h' = "(h @ [nd])[r := rn]"
  have F0: "?F' = (map_of fs)(?p \<mapsto> ?L)" by (rule update_conv')
  note F' = F0 F0 [simplified]
  have nth: "?h' ! x = (if x = r then rn else if x < ?L then h ! x else if x = ?L then nd else ?h' ! x)" for x
    using R(1) by (simp add: nth_upd nth_append)
  have d: "x < ?L \<Longrightarrow> is_dir (?h' ! x) = is_dir (h ! x)" for x
    using assms(3,6) by (simp add: nth)
  have dL: "\<not> is_dir (?h' ! ?L)" using R(1) assms(5) by (simp add: nth)
  have ch: "map_of (children (?h' ! r)) = (map_of (children (h ! r)))(name \<mapsto> ?L)"
    using assms(7) by (simp add: nth update_conv')
  have notL: "map_of fs q \<noteq> Some ?L" for q using R(4) [of q ?L] by auto
  have k1: "distinct (map fst (AList.update ?p ?L fs))" using R(6) by (rule distinct_update)
  have k2: "\<forall>q x. ?F' q = Some x \<longrightarrow> x < length ?h'"
    unfolding F0 using R(4) by (auto simp: less_Suc_eq split: if_splits)
  have k3: "\<forall>q q' x. ?F' q = Some x \<longrightarrow> ?F' q' = Some x \<longrightarrow> q = q'"
    unfolding F0 using R(5) notL by (auto split: if_splits)
  have k6: "\<forall>q x. ?F' q = Some x \<longrightarrow> is_dir (?h' ! x) \<longrightarrow> q = ''/''"
  proof (intro allI impI)
    fix q x assume 1: "?F' q = Some x" and 2: "is_dir (?h' ! x)"
    have "x \<noteq> ?L" using 2 dL by auto
    then have q: "map_of fs q = Some x" using 1 by (auto simp: update_conv' delete_conv' split: if_splits)
    then have "is_dir (h ! x)" using 2 d R(4) by blast
    then show "q = ''/''" using assms(1) q unfolding shape_def Let_def by blast
  qed
  show ?thesis
  proof (cases "name = []")
    case True
    have "\<forall>r'. ?F' ''/'' = Some r' \<longrightarrow> \<not> is_dir (?h' ! r')"
      using True dL by (simp add: update_conv')
    then show ?thesis
      unfolding shape_def Let_def using k1 k2 k3 k6 by blast
  next
    case False
    then have pne: "?p \<noteq> ''/''" by simp
    have k7a: "\<forall>r' n c. ?F' ''/'' = Some r' \<longrightarrow> is_dir (?h' ! r') \<longrightarrow>
               map_of (children (?h' ! r')) n = Some c \<longrightarrow> n \<noteq> [] \<and> ?F' (''/'' @ n) = Some c"
    proof (intro allI impI)
      fix r' n c
      assume 1: "?F' ''/'' = Some r'" and 2: "map_of (children (?h' ! r')) n = Some c"
      have r': "r' = r" using 1 assms(2) False by (simp add: update_conv' delete_conv')
      show "n \<noteq> [] \<and> ?F' (''/'' @ n) = Some c"
      proof (cases "n = name")
        case True
        then show ?thesis using 2 False unfolding r' ch by (simp add: update_conv' delete_conv')
      next
        case n: False
        then have "map_of (children (h ! r)) n = Some c" using 2 unfolding r' ch by simp
        then show ?thesis using R(2) n by (simp add: update_conv' delete_conv')
      qed
    qed
    have k7b: "\<forall>r' q x. ?F' ''/'' = Some r' \<longrightarrow> is_dir (?h' ! r') \<longrightarrow> ?F' q = Some x \<longrightarrow>
               q \<noteq> ''/'' \<longrightarrow> take 1 q = ''/'' \<and> map_of (children (?h' ! r')) (drop 1 q) = Some x"
    proof (intro allI impI)
      fix r' q x
      assume 1: "?F' ''/'' = Some r'" and 2: "?F' q = Some x" and 3: "q \<noteq> ''/''"
      have r': "r' = r" using 1 assms(2) False by (simp add: update_conv' delete_conv')
      show "take 1 q = ''/'' \<and> map_of (children (?h' ! r')) (drop 1 q) = Some x"
      proof (cases "q = ?p")
        case True
        then show ?thesis using 2 unfolding r' ch by (simp add: update_conv' delete_conv')
      next
        case q: False
        then have "map_of fs q = Some x" using 2 by (simp add: update_conv' delete_conv')
        from R(3) [OF this 3]
        have qq: "q = ''/'' @ drop 1 q" "map_of (children (h ! r)) (drop 1 q) = Some x"
          by simp_all
        have "drop 1 q \<noteq> name" using q qq(1) by metis
        moreover have "take 1 q = ''/''" using qq(1) by (metis append_eq_conv_conj length_Cons list.size(3) One_nat_def)
        ultimately show ?thesis unfolding r' ch using qq(2) by simp
      qed
    qed
    show ?thesis
      unfolding shape_def Let_def using k1 k2 k3 k6 k7a k7b by blast
  qed
qed

lemma shape_move:
  assumes "shape fs h" and "map_of fs ''/'' = Some r" and "is_dir (h ! r)"
    and "map_of fs old = Some a" and "old \<noteq> ''/''"
    and "map_of (children (h ! r)) nn = None"
    and "is_dir rn"
    and "children rn = AList.update nn a (AList.delete (drop 1 old) (children (h ! r)))"
  shows "shape (AList.update (''/'' @ nn) a (AList.delete old fs)) (h[r := rn])"
proof -
  note R = shape_root [OF assms(1-3)]
  let ?new = "''/'' @ nn"
  let ?F' = "map_of (AList.update ?new a (AList.delete old fs))"
  let ?h' = "h[r := rn]"
  have F0: "?F' = ((map_of fs)(old := None))(?new \<mapsto> a)"
    by (simp add: update_conv' delete_conv')
  note F' = F0 F0 [simplified]
  have d: "is_dir (?h' ! x) = is_dir (h ! x)" for x
    using assms(3,7) by (simp add: nth_upd)
  have ch: "map_of (children (?h' ! r))
              = ((map_of (children (h ! r)))(drop 1 old := None))(nn \<mapsto> a)"
    using R(1) assms(8) by (simp add: update_conv' delete_conv')
  have o: "old = ''/'' @ drop 1 old" "map_of (children (h ! r)) (drop 1 old) = Some a"
      "\<not> is_dir (h ! a)"
    using R(3) [OF assms(4,5)] by simp_all
  have on: "drop 1 old \<noteq> nn" using o(2) assms(6) by auto
  then have neq: "old \<noteq> ?new" using o(1) by auto
  have only: "map_of fs q = Some a \<Longrightarrow> q = old" for q using R(5) assms(4) by blast
  have k1: "distinct (map fst (AList.update ?new a (AList.delete old fs)))"
    using R(6) by (intro distinct_update distinct_delete)
  have k2: "\<forall>q x. ?F' q = Some x \<longrightarrow> x < length ?h'"
    unfolding F0 using R(4) assms(4) by (auto split: if_splits)
  have k3: "\<forall>q q' x. ?F' q = Some x \<longrightarrow> ?F' q' = Some x \<longrightarrow> q = q'"
    unfolding F0 using R(5) only by (auto split: if_splits)
  have k6: "\<forall>q x. ?F' q = Some x \<longrightarrow> is_dir (?h' ! x) \<longrightarrow> q = ''/''"
  proof (intro allI impI)
    fix q x assume 1: "?F' q = Some x" and 2: "is_dir (?h' ! x)"
    have "x \<noteq> a" using 2 o(3) d by auto
    then have q: "map_of fs q = Some x" using 1 by (auto simp: update_conv' delete_conv' split: if_splits)
    then show "q = ''/''" using assms(1) 2 unfolding d shape_def Let_def by blast
  qed
  show ?thesis
  proof (cases "nn = []")
    case True
    have "\<forall>r'. ?F' ''/'' = Some r' \<longrightarrow> \<not> is_dir (?h' ! r')"
      using True o(3) by (simp add: update_conv' d)
    then show ?thesis
      unfolding shape_def Let_def using k1 k2 k3 k6 by blast
  next
    case False
    have k7a: "\<forall>r' n c. ?F' ''/'' = Some r' \<longrightarrow> is_dir (?h' ! r') \<longrightarrow>
               map_of (children (?h' ! r')) n = Some c \<longrightarrow> n \<noteq> [] \<and> ?F' (''/'' @ n) = Some c"
    proof (intro allI impI)
      fix r' n c
      assume 1: "?F' ''/'' = Some r'" and 2: "map_of (children (?h' ! r')) n = Some c"
      have r': "r' = r" using 1 assms(2,5) False by (simp add: update_conv' delete_conv')
      show "n \<noteq> [] \<and> ?F' (''/'' @ n) = Some c"
      proof (cases "n = nn")
        case True
        then show ?thesis using 2 False unfolding r' ch by (simp add: update_conv' delete_conv')
      next
        case n: False
        then have c: "n \<noteq> drop 1 old" "map_of (children (h ! r)) n = Some c"
          using 2 unfolding r' ch by (auto split: if_splits)
        have "''/'' @ n \<noteq> old" using c(1) o(1) by (metis same_append_eq)
        then show ?thesis using R(2) [OF c(2)] n by (simp add: update_conv' delete_conv')
      qed
    qed
    have k7b: "\<forall>r' q x. ?F' ''/'' = Some r' \<longrightarrow> is_dir (?h' ! r') \<longrightarrow> ?F' q = Some x \<longrightarrow>
               q \<noteq> ''/'' \<longrightarrow> take 1 q = ''/'' \<and> map_of (children (?h' ! r')) (drop 1 q) = Some x"
    proof (intro allI impI)
      fix r' q x
      assume 1: "?F' ''/'' = Some r'" and 2: "?F' q = Some x" and 3: "q \<noteq> ''/''"
      have r': "r' = r" using 1 assms(2,5) False by (simp add: update_conv' delete_conv')
      show "take 1 q = ''/'' \<and> map_of (children (?h' ! r')) (drop 1 q) = Some x"
      proof (cases "q = ?new")
        case True
        then show ?thesis using 2 unfolding r' ch by (simp add: update_conv' delete_conv')
      next
        case q: False
        then have q2: "q \<noteq> old" "map_of fs q = Some x"
          using 2 by (auto simp: update_conv' delete_conv' split: if_splits)
        from R(3) [OF q2(2) 3]
        have qq: "q = ''/'' @ drop 1 q" "map_of (children (h ! r)) (drop 1 q) = Some x"
          by simp_all
        have "drop 1 q \<noteq> nn" using q qq(1) by metis
        moreover have "drop 1 q \<noteq> drop 1 old" using q2(1) qq(1) o(1) by metis
        moreover have "take 1 q = ''/''" using qq(1) by (metis append_eq_conv_conj length_Cons list.size(3) One_nat_def)
        ultimately show ?thesis unfolding r' ch using qq(2) by simp
      qed
    qed
    show ?thesis
      unfolding shape_def Let_def using k1 k2 k3 k6 k7a k7b by blast
  qed
qed


lemma wsum_set:
  assumes "finite (ran F)" and "\<And>q q' x. F q = Some x \<Longrightarrow> F q' = Some x \<Longrightarrow> q = q'"
    and "a \<notin> ran (F(p := None))"
  shows "wsum (F(p \<mapsto> a)) D S
           = wsum F D S - (case F p of None \<Rightarrow> 0 | Some b \<Rightarrow> if D b then 0 else S b)
             + (if D a then 0 else S a)"
proof -
  let ?G = "F(p := None)"
  have sub: "ran ?G \<subseteq> ran F" by (auto simp: ran_def split: if_splits)
  then have fin: "finite (ran ?G)" using assms(1) by (rule finite_subset)
  have "wsum (?G(p \<mapsto> a)) D S = wsum ?G D S + (if D a then 0 else S a)"
    using fin _ assms(3) by (rule wsum_add) simp
  moreover have "wsum ?G D S = wsum F D S - (case F p of None \<Rightarrow> 0 | Some b \<Rightarrow> if D b then 0 else S b)"
  proof (cases "F p")
    case None
    then have "?G = F" by (auto simp: fun_eq_iff)
    then show ?thesis using None by simp
  next
    case (Some b)
    have "wsum ?G D S = wsum F D S - (if D b then 0 else S b)"
      using assms(1) Some by (rule wsum_del) (use assms(2) Some in blast)
    then show ?thesis using Some by simp
  qed
  ultimately show ?thesis by simp
qed

lemma sinv_del:
  assumes "sinv fs h u c" and "map_of fs ''/'' = Some r" and "is_dir (h ! r)"
    and "map_of fs p = Some a" and "\<not> is_dir (h ! a)"
    and "is_dir rn" and "size_n rn = size_n (h ! r)"
    and "children rn = AList.delete (drop 1 p) (children (h ! r))"
  shows "sinv (AList.delete p fs) (h[r := rn]) (u - size_n (h ! a)) c"
proof -
  let ?F = "map_of fs"
  let ?h' = "h[r := rn]"
  let ?D = "\<lambda>x. is_dir (h ! x)"
  let ?S = "\<lambda>x. size_n (h ! x)"
  have sh: "shape fs h" using assms(1) by (simp add: sinv_def)
  note R = shape_root [OF sh assms(2,3)]
  have pne: "p \<noteq> ''/''" using assms(2-5) by auto
  have d: "is_dir (?h' ! x) = is_dir (h ! x)" "size_n (?h' ! x) = size_n (h ! x)" for x
    using assms(3,6,7) by (simp_all add: nth_upd)
  have F': "map_of (AList.delete p fs) = ?F(p := None)" by (rule delete_conv')
  have "wsum (?F(p := None)) ?D ?S = wsum ?F ?D ?S - (if ?D a then 0 else ?S a)"
    using finite_ran_map_of assms(4) by (rule wsum_del) (use R(5) assms(4) in blast)
  then have w: "wsum (map_of (AList.delete p fs)) (\<lambda>x. is_dir (?h' ! x)) (\<lambda>x. size_n (?h' ! x))
                  = u - size_n (h ! a)"
    using assms(1,5) unfolding F' d by (simp add: sinv_def)
  have ain: "a \<in> ran ?F" using assms(4) by (auto simp: ran_def)
  have nn: "\<forall>x \<in> ran ?F. 0 \<le> size_n (h ! x)" using assms(1) by (simp add: sinv_def)
  have "ran (?F(p := None)) \<subseteq> ran ?F" by (auto simp: ran_def split: if_splits)
  then have nn': "\<forall>x \<in> ran (map_of (AList.delete p fs)). 0 \<le> size_n (?h' ! x)"
    unfolding F' d using nn by blast
  have "shape (AList.delete p fs) ?h'"
    using sh assms(2,3,4) pne assms(6,8) by (rule shape_del)
  moreover have "u - size_n (h ! a) \<le> c"
    using assms(1) nn ain by (auto simp: sinv_def)
  ultimately show ?thesis
    unfolding sinv_def using w nn' by simp
qed

lemma sinv_add:
  assumes "sinv fs h u c" and "map_of fs ''/'' = Some r" and "is_dir (h ! r)"
    and "map_of (children (h ! r)) name = None" and "\<not> is_dir nd" and "size_n nd = 0"
    and "is_dir rn" and "size_n rn = size_n (h ! r)"
    and "children rn = AList.update name (length h) (children (h ! r))"
  shows "sinv (AList.update (''/'' @ name) (length h) fs) ((h @ [nd])[r := rn]) u c"
proof -
  let ?F = "map_of fs"
  let ?p = "''/'' @ name"
  let ?L = "length h"
  let ?h' = "(h @ [nd])[r := rn]"
  let ?D = "\<lambda>x. is_dir (h ! x)"
  let ?S = "\<lambda>x. size_n (h ! x)"
  let ?D' = "\<lambda>x. is_dir (?h' ! x)"
  let ?S' = "\<lambda>x. size_n (?h' ! x)"
  have sh: "shape fs h" using assms(1) by (simp add: sinv_def)
  note R = shape_root [OF sh assms(2,3)]
  have old: "is_dir (?h' ! x) = is_dir (h ! x)" "size_n (?h' ! x) = size_n (h ! x)"
    if "x < ?L" for x
    using that assms(3,7,8) by (simp_all add: nth_upd nth_append)
  have new: "\<not> is_dir (?h' ! ?L)" "size_n (?h' ! ?L) = 0"
    using R(1) assms(5,6) by (simp_all add: nth_upd)
  have inran: "x < ?L" if "x \<in> ran ?F" for x using that R(4) by (auto simp: ran_def)
  have F': "map_of (AList.update ?p ?L fs) = ?F(?p \<mapsto> ?L)" by (rule update_conv')
  have notin: "?L \<notin> ran (?F(?p := None))"
  proof
    assume "?L \<in> ran (?F(?p := None))"
    then obtain q where "?F q = Some ?L" by (auto simp: ran_def split: if_splits)
    then show False using R(4) [of q ?L] by simp
  qed
  have pd: "?D' b" if "?F ?p = Some b" for b
  proof (cases "name = []")
    case True
    then have "b = r" using that assms(2) by simp
    then show ?thesis using assms(7) R(1) by (simp add: nth_upd)
  next
    case False
    then have "map_of (children (h ! r)) (drop 1 ?p) = Some b"
      using R(3) [OF that] by simp
    then show ?thesis using assms(4) by simp
  qed
  have "wsum (?F(?p \<mapsto> ?L)) ?D' ?S'
          = wsum ?F ?D' ?S' - (case ?F ?p of None \<Rightarrow> 0 | Some b \<Rightarrow> if ?D' b then 0 else ?S' b)
            + (if ?D' ?L then 0 else ?S' ?L)"
    using finite_ran_map_of R(5) notin by (rule wsum_set)
  moreover have "(case ?F ?p of None \<Rightarrow> 0 | Some b \<Rightarrow> if ?D' b then 0 else ?S' b) = 0"
    using pd by (cases "?F ?p") simp_all
  moreover have "wsum ?F ?D' ?S' = wsum ?F ?D ?S"
    by (rule wsum_cong) (simp add: old inran)
  ultimately have w: "wsum (map_of (AList.update ?p ?L fs)) ?D' ?S' = u"
    using assms(1) new unfolding F' by (simp add: sinv_def)
  have nn: "\<forall>x \<in> ran ?F. 0 \<le> size_n (h ! x)" using assms(1) by (simp add: sinv_def)
  have nn': "\<forall>x \<in> ran (map_of (AList.update ?p ?L fs)). 0 \<le> size_n (?h' ! x)"
  proof
    fix x assume "x \<in> ran (map_of (AList.update ?p ?L fs))"
    then have "x = ?L \<or> x \<in> ran ?F"
      unfolding F' by (auto simp: ran_def split: if_splits)
    then show "0 \<le> size_n (?h' ! x)"
    proof
      assume "x = ?L"
      then show ?thesis using new(2) by simp
    next
      assume x: "x \<in> ran ?F"
      then have "size_n (?h' ! x) = size_n (h ! x)" using old(2) inran by blast
      then show ?thesis using nn x by simp
    qed
  qed
  have "shape (AList.update ?p ?L fs) ?h'"
    using sh assms(2,3,4,5,7,9) by (rule shape_add)
  then show ?thesis
    unfolding sinv_def using w nn' assms(1) by (simp add: sinv_def)
qed

lemma sinv_move:
  assumes "sinv fs h u c" and "map_of fs ''/'' = Some r" and "is_dir (h ! r)"
    and "map_of fs old = Some a" and "old \<noteq> ''/''"
    and "map_of (children (h ! r)) nn = None"
    and "is_dir rn" and "size_n rn = size_n (h ! r)"
    and "children rn = AList.update nn a (AList.delete (drop 1 old) (children (h ! r)))"
  shows "sinv (AList.update (''/'' @ nn) a (AList.delete old fs)) (h[r := rn]) u c"
proof -
  let ?F = "map_of fs"
  let ?G = "?F(old := None)"
  let ?new = "''/'' @ nn"
  let ?h' = "h[r := rn]"
  let ?D = "\<lambda>x. is_dir (h ! x)"
  let ?S = "\<lambda>x. size_n (h ! x)"
  have sh: "shape fs h" using assms(1) by (simp add: sinv_def)
  note R = shape_root [OF sh assms(2,3)]
  have d: "is_dir (?h' ! x) = is_dir (h ! x)" "size_n (?h' ! x) = size_n (h ! x)" for x
    using assms(3,7,8) by (simp_all add: nth_upd)
  have o: "\<not> is_dir (h ! a)" using R(3) [OF assms(4,5)] by simp
  have F': "map_of (AList.update ?new a (AList.delete old fs)) = ?G(?new \<mapsto> a)"
    by (simp add: update_conv' delete_conv')
  have rG: "ran ?G = ran ?F - {a}"
    using assms(4) by (rule ran_del_inj) (use R(5) assms(4) in blast)
  have finG: "finite (ran ?G)" unfolding rG using finite_ran_map_of by simp
  have injG: "?G q = Some x \<Longrightarrow> ?G q' = Some x \<Longrightarrow> q = q'" for q q' x
    using R(5) by (auto split: if_splits)
  have notin: "a \<notin> ran (?G(?new := None))"
  proof
    assume "a \<in> ran (?G(?new := None))"
    then have "a \<in> ran ?G" by (auto simp: ran_def split: if_splits)
    then show False unfolding rG by simp
  qed
  have wG: "wsum ?G ?D ?S = wsum ?F ?D ?S - ?S a"
    using wsum_del [OF finite_ran_map_of assms(4), of ?D ?S] R(5) assms(4) o by auto
  have pd: "?D b" if "?G ?new = Some b" for b
  proof (cases "nn = []")
    case True
    then have "b = r" using that assms(2,5) by (simp split: if_splits)
    then show ?thesis using assms(3) by simp
  next
    case False
    have "?F ?new = Some b" using that by (simp split: if_splits)
    then have "map_of (children (h ! r)) (drop 1 ?new) = Some b"
      using R(3) [of ?new b] False by simp
    then show ?thesis using assms(6) by simp
  qed
  have "wsum (?G(?new \<mapsto> a)) ?D ?S
          = wsum ?G ?D ?S - (case ?G ?new of None \<Rightarrow> 0 | Some b \<Rightarrow> if ?D b then 0 else ?S b)
            + (if ?D a then 0 else ?S a)"
    using finG injG notin by (rule wsum_set)
  moreover have "(case ?G ?new of None \<Rightarrow> 0 | Some b \<Rightarrow> if ?D b then 0 else ?S b) = 0"
    using pd by (cases "?G ?new") simp_all
  ultimately have w: "wsum (map_of (AList.update ?new a (AList.delete old fs)))
                        (\<lambda>x. is_dir (?h' ! x)) (\<lambda>x. size_n (?h' ! x)) = u"
    using assms(1) o wG unfolding F' d by (simp add: sinv_def)
  have nn: "\<forall>x \<in> ran ?F. 0 \<le> size_n (h ! x)" using assms(1) by (simp add: sinv_def)
  have "ran (?G(?new \<mapsto> a)) \<subseteq> ran ?F"
    using assms(4) by (auto simp: ran_def split: if_splits)
  then have nn': "\<forall>x \<in> ran (map_of (AList.update ?new a (AList.delete old fs))).
                     0 \<le> size_n (?h' ! x)"
    unfolding F' d using nn by blast
  have "shape (AList.update ?new a (AList.delete old fs)) ?h'"
    using sh assms(2,3,4,5,6,7,9) by (rule shape_move)
  then show ?thesis
    unfolding sinv_def using w nn' assms(1) by (simp add: sinv_def)
qed

lemma ensure_parent_root:
  assumes "shape (files s) (heap s)" and "absolute p" and "ensure_parent p s = Inr (pa, name)"
  shows "map_of (files s) ''/'' = Some pa \<and> is_dir (heap s ! pa) \<and> p = ''/'' @ name"
proof -
  obtain parent where sp: "fs_split p = (parent, name)"
      and g: "map_of (files s) parent = Some pa" and d: "is_dir (heap s ! pa)"
    using assms(3)
    by (auto simp: ensure_parent_def fs_get_def split: prod.splits option.splits if_splits)
  have "parent = ''/''" using assms(1) g d unfolding shape_def Let_def by blast
  then show ?thesis using fs_split_root [OF assms(2)] sp g d by simp
qed

lemma store_inv_same: "same_store s t \<Longrightarrow> store_inv t = store_inv s"
  by (simp add: same_store_def store_inv_def)

lemma write_store_inv:
  assumes "store_inv s"
  shows "store_inv (snd (write_store p d off s))"
proof (cases "fst (write_store p d off s)")
  case (Inl e)
  then have "snd (write_store p d off s) = s"
    by (auto simp: write_store_def Let_def split_def split: sum.splits if_splits)
  then show ?thesis using assms by simp
next
  case (Inr n)
  let ?h = "heap s"
  obtain a where a: "map_of (files s) p = Some a" and nd: "\<not> is_dir (?h ! a)"
    using Inr by (auto simp: write_store_def fs_get_def Let_def split: option.splits if_splits)
  let ?new = "max (size_n (?h ! a)) (off + int (length d))"
  have sp: "ensure_space_delta (?new - size_n (?h ! a)) s = Inr ()"
    using Inr a nd by (auto simp: write_store_def fs_get_def Let_def split: sum.splits)
  have inv: "sinv (files s) ?h (used s) (capacity s)" using assms by (simp add: store_inv_def)
  have al: "a < length ?h" using inv a by (auto simp: sinv_def dest: shape_bound)
  let ?t = "snd (write_store p d off s)"
  have t: "files ?t = files s" "capacity ?t = capacity s"
      "used ?t = used s - size_n (?h ! a) + ?new"
      "heap ?t = ?h[a := heap ?t ! a]" "\<not> is_dir (heap ?t ! a)"
      "size_n (heap ?t ! a) = ?new"
    using a nd sp al
    by (simp_all add: write_store_def fs_get_def Let_def split_def now_ts_def)
  have nn: "0 \<le> size_n (?h ! a)"
    using inv a by (auto simp: sinv_def ran_def)
  have cap: "used s - size_n (?h ! a) + ?new \<le> capacity s"
    using sp inv by (auto simp: ensure_space_delta_def sinv_def split: if_splits)
  have "sinv (files s) (?h[a := heap ?t ! a])
          (used s - size_n (?h ! a) + size_n (heap ?t ! a)) (capacity s)"
    using inv a nd t(5) by (rule sinv_resize) (use cap nn t(6) in auto)
  then show ?thesis
    using t by (simp add: store_inv_def)
qed


lemma truncate_store_inv:
  assumes "store_inv s" and "0 \<le> len"
  shows "store_inv (snd (truncate_store p len s))"
proof (cases "fst (truncate_store p len s)")
  case (Inl e)
  then have "snd (truncate_store p len s) = s"
    by (auto simp: truncate_store_def Let_def split_def split: sum.splits if_splits)
  then show ?thesis using assms by simp
next
  case (Inr n)
  let ?h = "heap s"
  obtain a where a: "map_of (files s) p = Some a" and nd: "\<not> is_dir (?h ! a)"
    using Inr by (auto simp: truncate_store_def fs_get_def Let_def split: option.splits if_splits)
  have sp: "size_n (?h ! a) < len \<Longrightarrow> ensure_space_delta (len - size_n (?h ! a)) s = Inr ()"
    using Inr a nd
    by (auto simp: truncate_store_def fs_get_def Let_def split_def split: sum.splits if_splits)
  have inv: "sinv (files s) ?h (used s) (capacity s)" using assms by (simp add: store_inv_def)
  have al: "a < length ?h" using inv a by (auto simp: sinv_def dest: shape_bound)
  let ?t = "snd (truncate_store p len s)"
  have t: "files ?t = files s" "capacity ?t = capacity s"
      "used ?t = used s - size_n (?h ! a) + len"
      "heap ?t = ?h[a := heap ?t ! a]" "\<not> is_dir (heap ?t ! a)"
      "size_n (heap ?t ! a) = len"
    using a nd sp al
    by (auto simp: truncate_store_def fs_get_def Let_def split_def now_ts_def)
  have cap: "used s - size_n (?h ! a) + len \<le> capacity s"
    using sp inv by (cases "size_n (?h ! a) < len")
      (auto simp: ensure_space_delta_def sinv_def split: if_splits)
  have "sinv (files s) (?h[a := heap ?t ! a])
          (used s - size_n (?h ! a) + size_n (heap ?t ! a)) (capacity s)"
    using inv a nd t(5) by (rule sinv_resize) (use cap assms(2) t(6) in auto)
  then show ?thesis
    using t by (simp add: store_inv_def)
qed

lemma unlink_store_inv:
  assumes "store_inv s" and "absolute p"
  shows "store_inv (snd (unlink_store p s))"
proof (cases "fst (unlink_store p s)")
  case (Inl e)
  then have "snd (unlink_store p s) = s"
    by (auto simp: unlink_store_def fs_get_def has_key_def Let_def split_def
          split: sum.splits option.splits if_splits)
  then show ?thesis using assms by simp
next
  case (Inr n)
  let ?h = "heap s"
  obtain a where a: "map_of (files s) p = Some a" and nd: "\<not> is_dir (?h ! a)"
    using Inr by (auto simp: unlink_store_def fs_get_def Let_def split: option.splits if_splits)
  obtain r name where ep: "ensure_parent p s = Inr (r, name)"
    using Inr a nd
    by (auto simp: unlink_store_def fs_get_def Let_def split: sum.splits)
  have inv: "sinv (files s) ?h (used s) (capacity s)" using assms by (simp add: store_inv_def)
  then have sh: "shape (files s) ?h" by (simp add: sinv_def)
  have root: "map_of (files s) ''/'' = Some r" "is_dir (?h ! r)" "p = ''/'' @ name"
    using ensure_parent_root [OF sh assms(2) ep] by simp_all
  have rl: "r < length ?h" using sh root(1) by (rule shape_bound)
  have "has_key (children (?h ! r)) name"
    using Inr a nd ep
    by (auto simp: unlink_store_def fs_get_def Let_def split: if_splits)
  then obtain c where hk: "map_of (children (?h ! r)) name = Some c"
    by (auto simp: has_key_def)
  have ra: "r \<noteq> a" using root(2) nd by auto
  let ?t = "snd (unlink_store p s)"
  have t: "files ?t = AList.delete p (files s)" "capacity ?t = capacity s"
      "used ?t = used s - size_n (?h ! a)"
      "heap ?t = ?h[r := heap ?t ! r]" "is_dir (heap ?t ! r)"
      "size_n (heap ?t ! r) = size_n (?h ! r)"
      "children (heap ?t ! r) = AList.delete name (children (?h ! r))"
    using a nd ep hk rl root(2) ra
    by (simp_all add: unlink_store_def fs_get_def has_key_def Let_def split_def now_ts_def
          del_child_def touch_mc_def)
  have "sinv (AList.delete p (files s)) (?h[r := heap ?t ! r]) (used s - size_n (?h ! a))
          (capacity s)"
    using inv root(1,2) a nd t(5,6) by (rule sinv_del) (use t(7) root(3) in simp)
  then show ?thesis
    using t by (simp add: store_inv_def)
qed

lemma create_store_inv:
  assumes "store_inv s" and "absolute p"
  shows "store_inv (snd (create_store p md s))"
proof (cases "fst (create_store p md s)")
  case (Inl e)
  then have "snd (create_store p md s) = s"
    by (auto simp: create_store_def Let_def split_def split: sum.splits if_splits)
  then show ?thesis using assms by simp
next
  case (Inr n)
  let ?h = "heap s"
  obtain r name where ep: "ensure_parent p s = Inr (r, name)"
    using Inr by (auto simp: create_store_def Let_def split: sum.splits)
  have nk: "map_of (children (?h ! r)) name = None"
    using Inr ep by (auto simp: create_store_def has_key_def Let_def split: if_splits)
  have inv: "sinv (files s) ?h (used s) (capacity s)" using assms by (simp add: store_inv_def)
  then have sh: "shape (files s) ?h" by (simp add: sinv_def)
  have root: "map_of (files s) ''/'' = Some r" "is_dir (?h ! r)" "p = ''/'' @ name"
    using ensure_parent_root [OF sh assms(2) ep] by simp_all
  have rl: "r < length ?h" using sh root(1) by (rule shape_bound)
  let ?t = "snd (create_store p md s)"
  let ?L = "length ?h"
  have t: "files ?t = AList.update p ?L (files s)" "capacity ?t = capacity s"
      "used ?t = used s"
      "heap ?t = (?h @ [heap ?t ! ?L])[r := heap ?t ! r]"
      "\<not> is_dir (heap ?t ! ?L)" "size_n (heap ?t ! ?L) = 0"
      "is_dir (heap ?t ! r)" "size_n (heap ?t ! r) = size_n (?h ! r)"
      "children (heap ?t ! r) = AList.update name ?L (children (?h ! r))"
    using ep nk rl root(2)
    by (simp_all add: create_store_def has_key_def Let_def split_def now_ts_def now_node_def
          alloc_def set_child_def touch_mc_def nth_append)
  have "sinv (AList.update (''/'' @ name) ?L (files s)) ((?h @ [heap ?t ! ?L])[r := heap ?t ! r])
          (used s) (capacity s)"
    using inv root(1,2) nk t(5,6,7,8,9) by (rule sinv_add)
  then show ?thesis
    using t root(3) by (simp add: store_inv_def)
qed

lemma rmdir_store_inv:
  assumes "store_inv s" and "absolute p"
  shows "snd (rmdir_store p s) = s"
proof (cases "ensure_parent p s")
  case (Inl e)
  then show ?thesis
    by (auto simp: rmdir_store_def Let_def split: sum.splits)
next
  case (Inr x)
  obtain r name where ep: "ensure_parent p s = Inr (r, name)" using Inr by (cases x) simp
  have sh: "shape (files s) (heap s)" using assms(1) by (simp add: store_inv_def sinv_def)
  have root: "map_of (files s) ''/'' = Some r" "is_dir (heap s ! r)" "p = ''/'' @ name"
    using ensure_parent_root [OF sh assms(2) ep] by simp_all
  show ?thesis
  proof (cases "map_of (files s) p")
    case None
    then show ?thesis by (simp add: rmdir_store_def fs_get_def)
  next
    case (Some a)
    show ?thesis
    proof (cases "is_dir (heap s ! a) \<and> children (heap s ! a) = []")
      case False
      then show ?thesis using Some by (auto simp: rmdir_store_def fs_get_def)
    next
      case True
      then have "p = ''/''" using sh Some unfolding shape_def Let_def by blast
      then have "a = r" using Some root(1) by simp
      then have "\<not> has_key (children (heap s ! r)) name" using True by (simp add: has_key_def)
      then show ?thesis using Some True ep by (simp add: rmdir_store_def fs_get_def)
    qed
  qed
qed


lemma rename_target_inv:
  assumes "store_inv s" and "map_of (files s) ''/'' = Some r" and "is_dir (heap s ! r)"
    and "new = ''/'' @ nn"
  shows "store_inv (snd (rename_target r nn new s))"
    and "fst (rename_target r nn new s) = Inr () \<Longrightarrow>
           map_of (files (snd (rename_target r nn new s))) ''/'' = Some r
         \<and> is_dir (heap (snd (rename_target r nn new s)) ! r)
         \<and> map_of (children (heap (snd (rename_target r nn new s)) ! r)) nn = None
         \<and> (\<forall>q x. map_of (files (snd (rename_target r nn new s))) q = Some x
                \<longrightarrow> map_of (files s) q = Some x)"
proof -
  let ?h = "heap s"
  let ?t = "snd (rename_target r nn new s)"
  have inv: "sinv (files s) ?h (used s) (capacity s)" using assms(1) by (simp add: store_inv_def)
  then have sh: "shape (files s) ?h" by (simp add: sinv_def)
  note R = shape_root [OF sh assms(2,3)]
  have both: "store_inv ?t \<and> (fst (rename_target r nn new s) = Inr () \<longrightarrow>
           map_of (files ?t) ''/'' = Some r \<and> is_dir (heap ?t ! r)
         \<and> map_of (children (heap ?t ! r)) nn = None
         \<and> (\<forall>q x. map_of (files ?t) q = Some x \<longrightarrow> map_of (files s) q = Some x))"
  proof (cases "map_of (children (?h ! r)) nn")
    case None
    then have "rename_target r nn new s = (Inr (), s)" by (simp add: rename_target_def)
    then show ?thesis using assms None by simp
  next
    case (Some tg)
    have tg: "nn \<noteq> []" "map_of (files s) new = Some tg"
      using R(2) [OF Some] assms(4) by simp_all
    show ?thesis
    proof (cases "is_dir (?h ! tg)")
      case True
      then have "rename_target r nn new s = (Inl EISDIR, s)"
        using Some by (simp add: rename_target_def)
      then show ?thesis using assms(1) by simp
    next
      case False
      have ra: "r \<noteq> tg" using assms(3) False by auto
      have t: "fst (rename_target r nn new s) = Inr ()"
          "files ?t = AList.delete new (files s)" "capacity ?t = capacity s"
          "used ?t = used s - size_n (?h ! tg)"
          "heap ?t = ?h[r := heap ?t ! r]" "is_dir (heap ?t ! r)"
          "size_n (heap ?t ! r) = size_n (?h ! r)"
          "children (heap ?t ! r) = AList.delete nn (children (?h ! r))"
        using Some False tg(2) R(1) assms(3) ra
        by (simp_all add: rename_target_def has_key_def Let_def del_child_def)
      have "sinv (AList.delete new (files s)) (?h[r := heap ?t ! r])
              (used s - size_n (?h ! tg)) (capacity s)"
        using inv assms(2,3) tg(2) False t(6,7) by (rule sinv_del) (use t(8) assms(4) in simp)
      then have "store_inv ?t" using t by (simp add: store_inv_def)
      moreover have "map_of (files ?t) ''/'' = Some r"
        unfolding t(2) using tg(1) assms(2,4) by (simp add: delete_conv')
      moreover have "map_of (children (heap ?t ! r)) nn = None"
        unfolding t(8) by (simp add: delete_conv')
      moreover have "\<forall>q x. map_of (files ?t) q = Some x \<longrightarrow> map_of (files s) q = Some x"
        unfolding t(2) by (auto simp: delete_conv' split: if_splits)
      ultimately show ?thesis using t(6) by simp
    qed
  qed
  show "store_inv ?t" using both by simp
  show "fst (rename_target r nn new s) = Inr () \<Longrightarrow>
           map_of (files ?t) ''/'' = Some r \<and> is_dir (heap ?t ! r)
         \<and> map_of (children (heap ?t ! r)) nn = None
         \<and> (\<forall>q x. map_of (files ?t) q = Some x \<longrightarrow> map_of (files s) q = Some x)"
    using both by simp
qed


lemma rename_store_inv:
  assumes "store_inv s" and "absolute old" and "absolute new"
  shows "store_inv (snd (rename_store old new s))"
proof -
  let ?h = "heap s"
  have sh: "shape (files s) ?h" using assms(1) by (simp add: store_inv_def sinv_def)
  show ?thesis
  proof (cases "map_of (files s) old")
    case None
    then show ?thesis using assms(1) by (simp add: rename_store_def fs_get_def)
  next
    case (Some a)
    show ?thesis
    proof (cases "ensure_parent old s")
      case (Inl e)
      then show ?thesis using assms(1) Some by (simp add: rename_store_def fs_get_def)
    next
      case (Inr x)
      then obtain r on where ep1: "ensure_parent old s = Inr (r, on)" by (cases x) simp
      have root: "map_of (files s) ''/'' = Some r" "is_dir (?h ! r)" "old = ''/'' @ on"
        using ensure_parent_root [OF sh assms(2) ep1] by simp_all
      show ?thesis
      proof (cases "ensure_parent new s")
        case (Inl e)
        then show ?thesis using assms(1) Some ep1 by (simp add: rename_store_def fs_get_def)
      next
        case (Inr y)
        then obtain np nn where ep2': "ensure_parent new s = Inr (np, nn)" by (cases y) simp
        have root2: "map_of (files s) ''/'' = Some np" "new = ''/'' @ nn"
          using ensure_parent_root [OF sh assms(3) ep2'] by simp_all
        then have ep2: "ensure_parent new s = Inr (r, nn)" using ep2' root(1) by simp
        obtain res s2 where rt: "rename_target r nn new s = (res, s2)"
          by (cases "rename_target r nn new s")
        have inv2: "store_inv s2"
          using rename_target_inv(1) [OF assms(1) root(1,2) root2(2)] rt by simp
        show ?thesis
        proof (cases res)
          case (Inl e)
          then have "rename_store old new s = (Inl e, s2)"
            using Some ep1 ep2 rt by (simp add: rename_store_def fs_get_def)
          then show ?thesis using inv2 by simp
        next
          case (Inr u)
          have T: "map_of (files s2) ''/'' = Some r" "is_dir (heap s2 ! r)"
              "map_of (children (heap s2 ! r)) nn = None"
              "\<And>q x. map_of (files s2) q = Some x \<Longrightarrow> map_of (files s) q = Some x"
            using rename_target_inv(2) [OF assms(1) root(1,2) root2(2)] rt Inr by simp_all
          have inv2': "sinv (files s2) (heap s2) (used s2) (capacity s2)"
            using inv2 by (simp add: store_inv_def)
          then have sh2: "shape (files s2) (heap s2)" by (simp add: sinv_def)
          note R2 = shape_root [OF sh2 T(1,2)]
          show ?thesis
          proof (cases "map_of (children (heap s2 ! r)) on")
            case None
            then have "rename_store old new s = (Inl KeyError, s2)"
              using Some ep1 ep2 rt Inr by (simp add: rename_store_def fs_get_def has_key_def)
            then show ?thesis using inv2 by simp
          next
            case c: (Some c)
            have "on \<noteq> []" "map_of (files s2) old = Some c"
              using R2(2) [OF c] root(3) by simp_all
            then have o2: "map_of (files s2) old = Some a" "old \<noteq> ''/''"
              using T(4) Some root(3) by auto
            let ?t = "snd (rename_store old new s)"
            have t: "files ?t = AList.update new a (AList.delete old (files s2))"
                "capacity ?t = capacity s2" "used ?t = used s2"
                "heap ?t = (heap s2)[r := heap ?t ! r]" "is_dir (heap ?t ! r)"
                "size_n (heap ?t ! r) = size_n (heap s2 ! r)"
                "children (heap ?t ! r)
                   = AList.update nn a (AList.delete on (children (heap s2 ! r)))"
              using Some ep1 ep2 rt Inr c o2(1) R2(1) T(2)
              by (simp_all add: rename_store_def fs_get_def has_key_def Let_def split_def
                    now_ts_def del_child_def set_child_def touch_mc_def)
            have "sinv (AList.update (''/'' @ nn) a (AList.delete old (files s2)))
                    ((heap s2)[r := heap ?t ! r]) (used s2) (capacity s2)"
              using inv2' T(1,2) o2 T(3) t(5,6)
              by (rule sinv_move) (use t(7) root(3) in simp)
            then show ?thesis
              using t root2(2) by (simp add: store_inv_def)
          qed
        qed
      qed
    qed
  qed
qed


lemma guarded_inv:
  assumes "\<And>t. store_inv t \<Longrightarrow> store_inv (snd (body t))" and "store_inv s"
  shows "store_inv (snd (guarded opn path body s))"
proof -
  have c: "store_inv (after_check opn path s)"
    using check_same_store [of s opn path] assms(2)
    by (simp add: after_check_def store_inv_same)
  show ?thesis
  proof (cases "authorized opn path s")
    case True
    then show ?thesis using assms(1) c by (simp add: guarded_authorized)
  next
    case False
    then show ?thesis using c by (simp add: guarded_denied)
  qed
qed

lemma exec_inv:
  assumes "store_call c" and "store_inv s"
  shows "store_inv (exec c s)"
proof (cases c)
  case (Create p m)
  then show ?thesis
    using assms by (simp add: create_def guarded_inv create_store_inv)
next
  case (Write p d off)
  then show ?thesis
    using assms by (simp add: write_file_def guarded_inv write_store_inv)
next
  case (Truncate p n)
  then show ?thesis
    using assms by (simp add: truncate_def guarded_inv truncate_store_inv)
next
  case (Unlink p)
  then show ?thesis
    using assms by (simp add: unlink_def guarded_inv unlink_store_inv)
next
  case (Rmdir p)
  then show ?thesis
    using assms by (simp add: rmdir_def guarded_inv rmdir_store_inv)
next
  case (Rename p q)
  then have "absolute p" "absolute q" using assms(1) by simp_all
  then have "store_inv (snd (guarded ''rename'' q (rename_store p q) t))" if "store_inv t" for t
    using that by (intro guarded_inv rename_store_inv)
  then show ?thesis
    using assms(2) Rename by (simp add: rename_def guarded_inv)
qed (use assms(1) in simp_all)

lemma run_inv:
  assumes "\<forall>c \<in> set cs. store_call c" and "store_inv s"
  shows "store_inv (run cs s)"
  using assms unfolding run_def
  by (induction cs arbitrary: s) (simp_all add: exec_inv)

lemma init_inv:
  assumes "0 \<le> cap"
  shows "store_inv (init cap a scope clk ins u g)"
proof -
  let ?s = "init cap a scope clk ins u g"
  have f: "files ?s = [(''/'', 0)]" "used ?s = 0" "capacity ?s = cap" "length (heap ?s) = 1"
      "is_dir (heap ?s ! 0)" "children (heap ?s ! 0) = []" "size_n (heap ?s ! 0) = 0"
    by (simp_all add: init_def now_node_def now_ts_def alloc_def Let_def)
  have r: "ran (map_of [(''/'', 0::nat)]) = {0}" by (auto simp: ran_def)
  have "shape (files ?s) (heap ?s)"
    unfolding shape_def Let_def f(1) using f(4,5,6) by (auto split: if_splits)
  moreover have "{x \<in> {0}. \<not> is_dir (heap ?s ! x)} = {}" using f(5) by blast
  then have "wsum (map_of (files ?s)) (\<lambda>x. is_dir (heap ?s ! x)) (\<lambda>x. size_n (heap ?s ! x)) = 0"
    unfolding wsum_def f(1) r by (simp only: sum.empty)
  moreover have "\<forall>x \<in> ran (map_of (files ?s)). 0 \<le> size_n (heap ?s ! x)"
    unfolding f(1) r using f(7) by simp
  ultimately show ?thesis
    using assms f(2,3) by (simp add: store_inv_def sinv_def)
qed

lemma store_inv_used:
  assumes "store_inv s"
  shows "used s = total_file_size s \<and> used s \<le> capacity s"
proof -
  have "distinct (map fst (files s))"
    using assms by (simp add: store_inv_def sinv_def shape_def Let_def)
  then show ?thesis
    using assms by (simp add: total_file_size_wsum store_inv_def sinv_def)
qed

text \<open>
  C1. Start from the initial store with a capacity that is not negative and run any
  sequence of create, write, truncate, unlink, rmdir and rename calls, as the binding
  delivers them (absolute paths, truncate lengths not negative). After every call, failed
  ones included, \<open>used\<close> is the sum of the sizes of the file nodes of the store and is at
  most \<open>capacity\<close>.
\<close>

theorem used_is_total_file_size:
  assumes "0 \<le> cap" and "\<forall>c \<in> set cs. store_call c"
  shows "\<forall>n \<le> length cs.
           used (run (take n cs) (init cap a scope clk ins u g))
             = total_file_size (run (take n cs) (init cap a scope clk ins u g))
         \<and> used (run (take n cs) (init cap a scope clk ins u g))
             \<le> capacity (run (take n cs) (init cap a scope clk ins u g))"
proof (intro allI impI)
  fix n assume "n \<le> length cs"
  have "\<forall>c \<in> set (take n cs). store_call c"
    using assms(2) by (meson in_set_takeD)
  then have "store_inv (run (take n cs) (init cap a scope clk ins u g))"
    using init_inv [OF assms(1)] by (rule run_inv)
  then show "used (run (take n cs) (init cap a scope clk ins u g))
             = total_file_size (run (take n cs) (init cap a scope clk ins u g))
         \<and> used (run (take n cs) (init cap a scope clk ins u g))
             \<le> capacity (run (take n cs) (init cap a scope clk ins u g))"
    by (rule store_inv_used)
qed

theorem used_is_total_file_size_witness:
  "(0::int) \<le> 20 \<and> list_all store_call session
   \<and> map (\<lambda>n. used (run (take n session) demo)) [0, 1, 2, 3, 4, 5, 6, 7, 8, 9, 10]
        = [0, 0, 10, 20, 20, 4, 4, 17, 13, 13, 0]
   \<and> map (\<lambda>n. total_file_size (run (take n session) demo)) [0, 1, 2, 3, 4, 5, 6, 7, 8, 9, 10]
        = [0, 0, 10, 20, 20, 4, 4, 17, 13, 13, 0]
   \<and> capacity (run session demo) = 20"
proof -
  have c: "\<forall>c \<in> set session. store_call c"
    by (simp add: session_def absolute_def)
  have u: "map (\<lambda>n. used (run (take n session) demo)) [0, 1, 2, 3, 4, 5, 6, 7, 8, 9, 10]
        = [0, 0, 10, 20, 20, 4, 4, 17, 13, 13, 0]"
    by (simp add: session_def eval_defs ops_defs)
  have cap: "capacity (run session demo) = 20"
    by (simp add: session_def eval_defs ops_defs)
  have h: "(0::int) \<le> 20" by simp
  have len: "length session = 10" by (simp add: session_def)
  note th = used_is_total_file_size [OF h c, of False "''op''" "\<lambda>n. real n" "[]" 1000 1000,
      folded demo_def, unfolded len, rule_format]
  have t: "total_file_size (run (take n session) demo) = used (run (take n session) demo)"
    if "n \<le> 10" for n
    using th [OF that] by simp
  have "map (\<lambda>n. total_file_size (run (take n session) demo)) [0, 1, 2, 3, 4, 5, 6, 7, 8, 9, 10]
          = map (\<lambda>n. used (run (take n session) demo)) [0, 1, 2, 3, 4, 5, 6, 7, 8, 9, 10]"
    by (rule map_cong [OF refl]) (auto intro: t)
  then show ?thesis using h c u cap by (simp only: list_all_iff)
qed

end
